theory Spec2Isabelle
  imports Main "HOL-Library.Multiset"
begin

section \<open>Streaming aggregation over presorted input\<close>

text \<open>
  A shallow embedding of \<^verbatim>\<open>velox/exec/StreamingAggregation.cpp\<close>. The operator
  receives row batches whose rows are sorted on the grouping keys, keeps one
  accumulator row per open group, and emits the groups in batches of
  \<^verbatim>\<open>outputBatchSize_\<close> rows.

  The members of the class are split in two records: the ones \<^verbatim>\<open>initialize()\<close>
  fixes (\<open>config\<close>) and the ones the driver calls mutate (\<open>state\<close>). A member
  \<^verbatim>\<open>x_\<close> of the class is the field \<open>x'\<close> of its record. Every
  member function takes the state and returns the new one. A read outside a
  vector, a null or dangling \<^verbatim>\<open>char*\<close> and \<^verbatim>\<open>VELOX_UNSUPPORTED\<close> are values of the
  type \<open>error\<close>; a function that can fail returns \<open>error + 'a\<close>.
\<close>

subsection \<open>Errors\<close>

datatype error =
    Unsupported string
  | NullPointer
  | DanglingPointer
  | ChannelOutOfRange
  | RowOutOfRange
  | GroupOutOfRange
  | ColumnOutOfRange
  | UninitializedAccumulator

definition bindE :: "error + 'a \<Rightarrow> ('a \<Rightarrow> error + 'b) \<Rightarrow> error + 'b" where
  "bindE m f = (case m of Inl e \<Rightarrow> Inl e | Inr x \<Rightarrow> f x)"

text \<open>A loop over a list whose body can fail: the first failure ends it.\<close>

fun foldE :: "('a \<Rightarrow> 's \<Rightarrow> error + 's) \<Rightarrow> 'a list \<Rightarrow> 's \<Rightarrow> error + 's" where
  "foldE f [] s = Inr s"
| "foldE f (x # xs) s = bindE (f x s) (foldE f xs)"

fun mapE :: "('a \<Rightarrow> error + 'b) \<Rightarrow> 'a list \<Rightarrow> error + 'b list" where
  "mapE f [] = Inr []"
| "mapE f (x # xs) = bindE (f x) (\<lambda>y. bindE (mapE f xs) (\<lambda>ys. Inr (y # ys)))"

text \<open>
  \<^verbatim>\<open>v[i]\<close> on a \<^verbatim>\<open>std::vector\<close>, and a row read of a column. The index is an
  integer: \<^verbatim>\<open>prevInput_->size() - 1\<close> is \<open>-1\<close> on an empty batch, and
  \<^verbatim>\<open>numGroups_ - 1\<close> wraps to the largest \<^verbatim>\<open>size_t\<close> when \<^verbatim>\<open>numGroups_\<close> is zero;
  both are outside every vector.
\<close>

definition nthE :: "error \<Rightarrow> 'a list \<Rightarrow> int \<Rightarrow> error + 'a" where
  "nthE e xs i = (if 0 \<le> i \<and> i < int (length xs) then Inr (xs ! nat i) else Inl e)"

definition assignAt :: "error \<Rightarrow> 'a list \<Rightarrow> nat \<Rightarrow> 'a \<Rightarrow> error + 'a list" where
  "assignAt e xs i v = (if i < length xs then Inr (xs[i := v]) else Inl e)"

text \<open>\<^verbatim>\<open>std::vector::resize(n)\<close>: keeps a prefix, pads with value-initialized entries.\<close>

definition resize :: "nat \<Rightarrow> 'a \<Rightarrow> 'a list \<Rightarrow> 'a list" where
  "resize n d xs = take n xs @ replicate (n - length xs) d"

subsection \<open>Vectors and row batches\<close>

text \<open>
  A cell is one value of a column; \<open>None\<close> is the SQL null. A boolean column holds
  \<open>Some 1\<close> for true and \<open>Some 0\<close> for false.
\<close>

type_synonym cell = "int option"
type_synonym column = "cell list"

text \<open>
  A \<^verbatim>\<open>VectorPtr\<close> handed to an aggregate: an input column, or the constant built by
  \<^verbatim>\<open>BaseVector::createConstant(type, value, 1, pool)\<close>, or \<^verbatim>\<open>nullptr\<close> (\<open>None\<close>).
\<close>

datatype vector = FlatVector column | ConstantVector cell

type_synonym VectorPtr = "vector option"

record rowvector =
  rv_size :: nat
  rv_children :: "column list"

definition childAt :: "rowvector \<Rightarrow> nat \<Rightarrow> error + column" where
  "childAt batch channel = nthE ChannelOutOfRange (rv_children batch) (int channel)"

text \<open>
  Modelled from the spec: \<^verbatim>\<open>BaseVector::equalValueAt\<close>, the engine's per-type value
  equality. Two nulls compare equal, a null and a value compare unequal.
\<close>

definition equalValueAt :: "column \<Rightarrow> column \<Rightarrow> int \<Rightarrow> int \<Rightarrow> error + bool" where
  "equalValueAt this other index otherIndex =
     bindE (nthE RowOutOfRange this index) (\<lambda>a.
     bindE (nthE RowOutOfRange other otherIndex) (\<lambda>b. Inr (a = b)))"

fun equalKeys :: "nat list \<Rightarrow> rowvector \<Rightarrow> int \<Rightarrow> rowvector \<Rightarrow> int \<Rightarrow> error + bool" where
  "equalKeys [] batch index otherBatch otherIndex = Inr True"
| "equalKeys (key # keys) batch index otherBatch otherIndex =
     bindE (childAt batch key) (\<lambda>column.
     bindE (childAt otherBatch key) (\<lambda>otherColumn.
     bindE (equalValueAt column otherColumn index otherIndex) (\<lambda>equal.
       if \<not> equal then Inr False
       else equalKeys keys batch index otherBatch otherIndex)))"

subsection \<open>The row container\<close>

text \<open>
  A group slot is a row of the container: the grouping-key values, then one
  accumulator per aggregate. An accumulator is \<open>None\<close> until the kernel's
  \<^verbatim>\<open>initializeNewGroups\<close> has written it. A \<^verbatim>\<open>char*\<close> to a row is the position of
  the row in the container, \<open>None\<close> is \<^verbatim>\<open>nullptr\<close>.
\<close>

type_synonym ptr = "nat option"

record 'acc grouprow =
  rowKeys :: "cell list"
  rowAccs :: "'acc option list"

record 'acc rowContainer =
  rc_numKeys :: nat
  rc_numAccs :: nat
  rc_rows :: "'acc grouprow list"

definition blankRow :: "'acc rowContainer \<Rightarrow> 'acc grouprow" where
  "blankRow rc = \<lparr>rowKeys = replicate (rc_numKeys rc) None,
                  rowAccs = replicate (rc_numAccs rc) None\<rparr>"

definition rowAt :: "'acc rowContainer \<Rightarrow> ptr \<Rightarrow> error + 'acc grouprow" where
  "rowAt rc p = (case p of
       None \<Rightarrow> Inl NullPointer
     | Some a \<Rightarrow> nthE DanglingPointer (rc_rows rc) (int a))"

definition putRow :: "'acc rowContainer \<Rightarrow> ptr \<Rightarrow> 'acc grouprow \<Rightarrow> error + 'acc rowContainer" where
  "putRow rc p r = (case p of
       None \<Rightarrow> Inl NullPointer
     | Some a \<Rightarrow> bindE (assignAt DanglingPointer (rc_rows rc) a r) (\<lambda>rows.
         Inr (rc\<lparr>rc_rows := rows\<rparr>)))"

text \<open>
  Modelled from the spec: the row-storage collaborator \<^verbatim>\<open>RowContainer\<close>.
  \<^verbatim>\<open>newRow()\<close> grows the container by one row; \<^verbatim>\<open>initializeRow(row, true)\<close>
  re-initializes a row in place; \<^verbatim>\<open>store(decoded, index, row, column)\<close> writes the
  value of the decoded column at \<open>index\<close> into key column \<open>column\<close> of the row;
  \<^verbatim>\<open>extractColumn(rows, n, column, result)\<close> reads key column \<open>column\<close> of the first
  \<open>n\<close> rows.
\<close>

definition newRow :: "'acc rowContainer \<Rightarrow> ptr \<times> 'acc rowContainer" where
  "newRow rc = (Some (length (rc_rows rc)), rc\<lparr>rc_rows := rc_rows rc @ [blankRow rc]\<rparr>)"

definition initializeRow :: "'acc rowContainer \<Rightarrow> ptr \<Rightarrow> bool \<Rightarrow> error + 'acc rowContainer" where
  "initializeRow rc row reuse = putRow rc row (blankRow rc)"

definition store :: "'acc rowContainer \<Rightarrow> column \<Rightarrow> nat \<Rightarrow> ptr \<Rightarrow> nat \<Rightarrow> error + 'acc rowContainer" where
  "store rc decoded index row column =
     bindE (nthE RowOutOfRange decoded (int index)) (\<lambda>v.
     bindE (rowAt rc row) (\<lambda>r.
     bindE (assignAt ColumnOutOfRange (rowKeys r) column v) (\<lambda>ks.
       putRow rc row (r\<lparr>rowKeys := ks\<rparr>))))"

definition extractColumn :: "'acc rowContainer \<Rightarrow> ptr list \<Rightarrow> nat \<Rightarrow> nat \<Rightarrow> error + column" where
  "extractColumn rc rows n column =
     mapE (\<lambda>r. bindE (nthE GroupOutOfRange rows (int r)) (\<lambda>p.
                bindE (rowAt rc p) (\<lambda>row.
                  nthE ColumnOutOfRange (rowKeys row) (int column)))) [0..<n]"

subsection \<open>Aggregate kernels\<close>

text \<open>
  Modelled from the spec: the aggregate kernel \<^verbatim>\<open>Aggregate\<close>, of which the source
  has only the calls. A kernel is given by the accumulator a new group starts
  with, the update of an accumulator by the argument values of one raw input row
  and by those of one intermediate row, and the two ways to read a result out of
  an accumulator. The operator binds kernel \<open>i\<close> to accumulator column \<open>i\<close> of the
  row container (\<^verbatim>\<open>setOffsets\<close> in \<^verbatim>\<open>initialize()\<close>).
\<close>

record 'acc aggregate =
  initialValue :: 'acc
  rawUpdate :: "'acc \<Rightarrow> cell list \<Rightarrow> 'acc"
  intermediateUpdate :: "'acc \<Rightarrow> cell list \<Rightarrow> 'acc"
  finalValue :: "'acc \<Rightarrow> cell"
  accumulatorValue :: "'acc \<Rightarrow> cell"

definition readAccumulator :: "'acc rowContainer \<Rightarrow> ptr \<Rightarrow> nat \<Rightarrow> error + 'acc" where
  "readAccumulator rc p i =
     bindE (rowAt rc p) (\<lambda>r.
     bindE (nthE ColumnOutOfRange (rowAccs r) (int i)) (\<lambda>a.
       case a of None \<Rightarrow> Inl UninitializedAccumulator | Some v \<Rightarrow> Inr v))"

definition writeAccumulator :: "'acc rowContainer \<Rightarrow> ptr \<Rightarrow> nat \<Rightarrow> 'acc \<Rightarrow> error + 'acc rowContainer" where
  "writeAccumulator rc p i v =
     bindE (rowAt rc p) (\<lambda>r.
     bindE (assignAt ColumnOutOfRange (rowAccs r) i (Some v)) (\<lambda>as.
       putRow rc p (r\<lparr>rowAccs := as\<rparr>)))"

definition valueAt :: "VectorPtr \<Rightarrow> nat \<Rightarrow> error + cell" where
  "valueAt v row = (case v of
       None \<Rightarrow> Inl NullPointer
     | Some (FlatVector c) \<Rightarrow> nthE RowOutOfRange c (int row)
     | Some (ConstantVector x) \<Rightarrow> Inr x)"

text \<open>\<^verbatim>\<open>initializeNewGroups(groups, indices)\<close>: every listed slot gets the initial accumulator.\<close>

definition initializeNewGroups ::
  "'acc aggregate \<Rightarrow> nat \<Rightarrow> ptr list \<Rightarrow> nat list \<Rightarrow> 'acc rowContainer \<Rightarrow> error + 'acc rowContainer" where
  "initializeNewGroups agg i groups indices rc =
     foldE (\<lambda>index rc. bindE (nthE GroupOutOfRange groups (int index)) (\<lambda>p.
                writeAccumulator rc p i (initialValue agg))) indices rc"

text \<open>
  The shared body of \<^verbatim>\<open>addRawInput(groups, rows, args, mayPushdown)\<close> and
  \<^verbatim>\<open>addIntermediateResults(groups, rows, args, mayPushdown)\<close>: for every selected
  row \<open>r\<close>, in row order, the accumulator of \<open>groups[r]\<close> is updated by the argument
  values at \<open>r\<close>.
\<close>

definition updateGroups ::
  "('acc \<Rightarrow> cell list \<Rightarrow> 'acc) \<Rightarrow> nat \<Rightarrow> ptr list \<Rightarrow> bool list \<Rightarrow> VectorPtr list \<Rightarrow>
   'acc rowContainer \<Rightarrow> error + 'acc rowContainer" where
  "updateGroups update i groups rows args rc =
     foldE (\<lambda>r rc. if rows ! r then
                bindE (nthE GroupOutOfRange groups (int r)) (\<lambda>p.
                bindE (readAccumulator rc p i) (\<lambda>a.
                bindE (mapE (\<lambda>v. valueAt v r) args) (\<lambda>vs.
                  writeAccumulator rc p i (update a vs))))
              else Inr rc) [0..<length rows] rc"

definition addRawInput ::
  "'acc aggregate \<Rightarrow> nat \<Rightarrow> ptr list \<Rightarrow> bool list \<Rightarrow> VectorPtr list \<Rightarrow> bool \<Rightarrow>
   'acc rowContainer \<Rightarrow> error + 'acc rowContainer" where
  "addRawInput agg i groups rows args mayPushdown rc =
     updateGroups (rawUpdate agg) i groups rows args rc"

definition addIntermediateResults ::
  "'acc aggregate \<Rightarrow> nat \<Rightarrow> ptr list \<Rightarrow> bool list \<Rightarrow> VectorPtr list \<Rightarrow> bool \<Rightarrow>
   'acc rowContainer \<Rightarrow> error + 'acc rowContainer" where
  "addIntermediateResults agg i groups rows args mayPushdown rc =
     updateGroups (intermediateUpdate agg) i groups rows args rc"

definition extractWith ::
  "('acc \<Rightarrow> cell) \<Rightarrow> nat \<Rightarrow> ptr list \<Rightarrow> nat \<Rightarrow> 'acc rowContainer \<Rightarrow> error + column" where
  "extractWith f i groups numGroups rc =
     mapE (\<lambda>r. bindE (nthE GroupOutOfRange groups (int r)) (\<lambda>p.
                bindE (readAccumulator rc p i) (\<lambda>a. Inr (f a)))) [0..<numGroups]"

definition extractValues ::
  "'acc aggregate \<Rightarrow> nat \<Rightarrow> ptr list \<Rightarrow> nat \<Rightarrow> 'acc rowContainer \<Rightarrow> error + column" where
  "extractValues agg = extractWith (finalValue agg)"

definition extractAccumulators ::
  "'acc aggregate \<Rightarrow> nat \<Rightarrow> ptr list \<Rightarrow> nat \<Rightarrow> 'acc rowContainer \<Rightarrow> error + column" where
  "extractAccumulators agg = extractWith (accumulatorValue agg)"

text \<open>
  The calls the operator makes on its kernels, in the order it makes them: the
  aggregate's position, then the arguments of the call as the kernel sees them.
\<close>

datatype kernelCall =
    InitializeNewGroups nat "ptr list" "nat list"
  | AddRawInput nat "ptr list" "bool list" "VectorPtr list" bool
  | AddIntermediateResults nat "ptr list" "bool list" "VectorPtr list" bool
  | ExtractValues nat "ptr list" nat
  | ExtractAccumulators nat "ptr list" nat

subsection \<open>Aggregation masks\<close>

text \<open>
  Modelled from the spec: the mask collaborator \<^verbatim>\<open>AggregationMasks\<close>.
  \<^verbatim>\<open>addInput(input, rows)\<close> evaluates, for every aggregate with a mask column, the
  rows of the selection whose mask value is true; \<^verbatim>\<open>activeRows(i)\<close> returns that
  selection, or \<^verbatim>\<open>nullptr\<close> for an aggregate without a mask.
\<close>

definition masksAddInput ::
  "nat option list \<Rightarrow> rowvector \<Rightarrow> bool list \<Rightarrow> error + bool list option list" where
  "masksAddInput maskChannels input rows =
     mapE (\<lambda>m. case m of
             None \<Rightarrow> Inr None
           | Some channel \<Rightarrow> bindE (childAt input channel) (\<lambda>c.
               bindE (mapE (\<lambda>r. bindE (nthE RowOutOfRange c (int r)) (\<lambda>v.
                               Inr (rows ! r \<and> v = Some 1))) [0..<length rows]) (\<lambda>sel.
                 Inr (Some sel)))) maskChannels"

definition activeRows :: "bool list option list \<Rightarrow> nat \<Rightarrow> error + bool list option" where
  "activeRows maskedRows aggregateIndex = nthE ColumnOutOfRange maskedRows (int aggregateIndex)"

subsection \<open>The operator\<close>

datatype step = kPartial | kFinal | kIntermediate | kSingle

text \<open>
  Modelled from the spec: the two predicates of \<^verbatim>\<open>core::AggregationNode\<close> on the
  step. A raw-input step is partial or single, a partial-output step is partial
  or intermediate.
\<close>

definition isRawInput :: "step \<Rightarrow> bool" where
  "isRawInput s = (s = kPartial \<or> s = kSingle)"

definition isPartialOutput :: "step \<Rightarrow> bool" where
  "isPartialOutput s = (s = kPartial \<or> s = kIntermediate)"

text \<open>\<^verbatim>\<open>kConstantChannel\<close>: the largest \<^verbatim>\<open>column_index_t\<close>, an unsigned 32-bit index.\<close>

definition kConstantChannel :: nat where
  "kConstantChannel = 4294967295"

record 'acc config =
  outputBatchSize' :: nat
  step' :: step
  groupingKeys' :: "nat list"
  aggregates' :: "'acc aggregate list"
  args' :: "nat list list"
  constantArgs' :: "VectorPtr list list"
  maskChannels' :: "nat option list"

record 'acc state =
  input' :: "rowvector option"
  prevInput' :: "rowvector option"
  noMoreInput' :: bool
  inputRows' :: "bool list"
  maskedRows' :: "bool list option list"
  decodedKeys' :: "column list"
  inputGroups' :: "ptr list"
  numGroups' :: nat
  groups' :: "ptr list"
  rows' :: "'acc rowContainer"
  calls' :: "kernelCall list"

subsection \<open>Initialization\<close>

text \<open>
  The plan node as \<^verbatim>\<open>initialize()\<close> reads it. An argument of an aggregate call is
  a column of the input or a constant; grouping keys and masks are given by the
  column they resolve to.
\<close>

datatype typedExpr = FieldAccess nat | ConstantExpr cell

record aggregateCall =
  aggName :: string
  aggInputs :: "typedExpr list"
  aggSortingKeys :: "nat list"
  aggDistinct :: bool
  aggMask :: "nat option"

record aggregationNode =
  nodeStep :: step
  nodeGroupingKeys :: "nat list"
  nodeAggregates :: "aggregateCall list"
  nodeIgnoreNullKeys :: bool

text \<open>
  Modelled from the spec: \<^verbatim>\<open>exprToChannel\<close>, the expression-to-column resolution.
  A constant resolves to \<^verbatim>\<open>kConstantChannel\<close>.
\<close>

definition exprToChannel :: "typedExpr \<Rightarrow> nat" where
  "exprToChannel e = (case e of FieldAccess c \<Rightarrow> c | ConstantExpr v \<Rightarrow> kConstantChannel)"

definition constantOf :: "typedExpr \<Rightarrow> VectorPtr" where
  "constantOf e = (if exprToChannel e = kConstantChannel
     then (case e of ConstantExpr v \<Rightarrow> Some (ConstantVector v) | FieldAccess c \<Rightarrow> Some (ConstantVector None))
     else None)"

text \<open>
  One round of the loop over the aggregates of the node. \<open>create\<close> is the kernel
  factory \<^verbatim>\<open>Aggregate::create\<close>, by function name and step.
\<close>

definition initializeAggregate ::
  "(string \<Rightarrow> step \<Rightarrow> 'acc aggregate) \<Rightarrow> step \<Rightarrow> aggregateCall \<Rightarrow> 'acc config \<Rightarrow> error + 'acc config" where
  "initializeAggregate create nstep aggregate cfg =
     (if aggSortingKeys aggregate \<noteq> [] then
        Inl (Unsupported ''Streaming aggregation doesn't support aggregations over sorted inputs yet'')
      else if aggDistinct aggregate then
        Inl (Unsupported ''Streaming aggregation doesn't support aggregations over distinct inputs yet'')
      else
        let channels = map exprToChannel (aggInputs aggregate);
            constants = map constantOf (aggInputs aggregate)
        in Inr (cfg\<lparr>
             maskChannels' := maskChannels' cfg @ [aggMask aggregate],
             aggregates' := aggregates' cfg @
               [create (aggName aggregate) (if isPartialOutput nstep then kPartial else kSingle)],
             args' := args' cfg @ [channels],
             constantArgs' := constantArgs' cfg @ [constants]\<rparr>))"

definition initialize ::
  "(string \<Rightarrow> step \<Rightarrow> 'acc aggregate) \<Rightarrow> nat \<Rightarrow> aggregationNode \<Rightarrow> error + ('acc config \<times> 'acc state)" where
  "initialize create outputBatchRows node =
     (let numKeys = length (nodeGroupingKeys node);
          cfg = \<lparr>outputBatchSize' = outputBatchRows, step' = nodeStep node,
                 groupingKeys' = nodeGroupingKeys node, aggregates' = [],
                 args' = [], constantArgs' = [], maskChannels' = []\<rparr>
      in bindE (foldE (initializeAggregate create (nodeStep node)) (nodeAggregates node) cfg) (\<lambda>cfg.
         if nodeIgnoreNullKeys node then
           Inl (Unsupported ''Streaming aggregation doesn't support ignoring null keys yet'')
         else
           Inr (cfg,
                \<lparr>input' = None, prevInput' = None, noMoreInput' = False,
                 inputRows' = [], maskedRows' = [],
                 decodedKeys' = replicate numKeys [],
                 inputGroups' = [], numGroups' = 0, groups' = [],
                 rows' = \<lparr>rc_numKeys = numKeys, rc_numAccs = length (aggregates' cfg), rc_rows = []\<rparr>,
                 calls' = []\<rparr>)))"

subsection \<open>Group slots\<close>

definition storeKeys :: "'acc config \<Rightarrow> ptr \<Rightarrow> nat \<Rightarrow> 'acc state \<Rightarrow> error + 'acc state" where
  "storeKeys cfg grp index st =
     foldE (\<lambda>i st. bindE (nthE ColumnOutOfRange (decodedKeys' st) (int i)) (\<lambda>decoded.
                    bindE (store (rows' st) decoded index grp i) (\<lambda>rc.
                      Inr (st\<lparr>rows' := rc\<rparr>))))
       [0..<length (groupingKeys' cfg)] st"

definition startNewGroup :: "'acc config \<Rightarrow> nat \<Rightarrow> 'acc state \<Rightarrow> error + (ptr \<times> 'acc state)" where
  "startNewGroup cfg index st =
     (if numGroups' st < length (groups' st) then
        let grp = groups' st ! numGroups' st;
            st1 = st\<lparr>numGroups' := numGroups' st + 1\<rparr>
        in bindE (initializeRow (rows' st1) grp True) (\<lambda>rc.
           bindE (storeKeys cfg grp index (st1\<lparr>rows' := rc\<rparr>)) (\<lambda>st2.
             Inr (grp, st2)))
      else
        let (newGroup, rc) = newRow (rows' st)
        in bindE (storeKeys cfg newGroup index (st\<lparr>rows' := rc\<rparr>)) (\<lambda>st1.
           bindE (assignAt GroupOutOfRange (resize (numGroups' st1 + 1) None (groups' st1))
                    (numGroups' st1) newGroup) (\<lambda>gs.
             Inr (newGroup, st1\<lparr>groups' := gs, numGroups' := numGroups' st1 + 1\<rparr>))))"

subsection \<open>Output\<close>

definition extractAggregate ::
  "'acc config \<Rightarrow> nat \<Rightarrow> nat \<Rightarrow> column list \<times> 'acc state \<Rightarrow> error + (column list \<times> 'acc state)" where
  "extractAggregate cfg numGroups i out =
     (case out of (columns, st) \<Rightarrow>
        bindE (nthE ColumnOutOfRange (aggregates' cfg) (int i)) (\<lambda>aggregate.
          if isPartialOutput (step' cfg) then
            bindE (extractAccumulators aggregate i (groups' st) numGroups (rows' st)) (\<lambda>result.
              Inr (columns @ [result],
                   st\<lparr>calls' := calls' st @ [ExtractAccumulators i (groups' st) numGroups]\<rparr>))
          else
            bindE (extractValues aggregate i (groups' st) numGroups (rows' st)) (\<lambda>result.
              Inr (columns @ [result],
                   st\<lparr>calls' := calls' st @ [ExtractValues i (groups' st) numGroups]\<rparr>))))"

definition createOutput :: "'acc config \<Rightarrow> nat \<Rightarrow> 'acc state \<Rightarrow> error + (rowvector \<times> 'acc state)" where
  "createOutput cfg numGroups st =
     bindE (mapE (\<lambda>i. extractColumn (rows' st) (groups' st) numGroups i)
              [0..<length (groupingKeys' cfg)]) (\<lambda>keyColumns.
     bindE (foldE (extractAggregate cfg numGroups) [0..<length (aggregates' cfg)] ([], st))
       (\<lambda>(aggColumns, st1).
          Inr (\<lparr>rv_size = numGroups, rv_children = keyColumns @ aggColumns\<rparr>, st1)))"

subsection \<open>Assigning the rows of a batch to groups\<close>

text \<open>
  The first loop of \<^verbatim>\<open>assignGroups()\<close>: rows that continue the last group of the
  previous batch. It returns the index it stopped at.
\<close>

function seamLoop ::
  "'acc config \<Rightarrow> rowvector \<Rightarrow> int \<Rightarrow> ptr \<Rightarrow> rowvector \<Rightarrow> nat \<Rightarrow> nat \<Rightarrow> 'acc state \<Rightarrow>
   error + (nat \<times> 'acc state)" where
  "seamLoop cfg prev prevIndex prevGroup inp numInput index st =
     (if index < numInput then
        (case equalKeys (groupingKeys' cfg) prev prevIndex inp (int index) of
           Inl e \<Rightarrow> Inl e
         | Inr equal \<Rightarrow>
             if equal then
               (case assignAt GroupOutOfRange (inputGroups' st) index prevGroup of
                  Inl e \<Rightarrow> Inl e
                | Inr gs \<Rightarrow>
                    seamLoop cfg prev prevIndex prevGroup inp numInput (Suc index)
                      (st\<lparr>inputGroups' := gs\<rparr>))
             else Inr (index, st))
      else Inr (index, st))"
  by pat_completeness auto
termination
  by (relation "measure (\<lambda>(cfg, prev, prevIndex, prevGroup, inp, numInput, index, st). numInput - index)")
     auto

text \<open>
  The last loop of \<^verbatim>\<open>assignGroups()\<close>: row \<open>i\<close> joins the group of row \<open>index\<close>
  or opens a new one.
\<close>

function groupLoop ::
  "'acc config \<Rightarrow> rowvector \<Rightarrow> nat \<Rightarrow> nat \<Rightarrow> nat \<Rightarrow> 'acc state \<Rightarrow> error + 'acc state" where
  "groupLoop cfg inp numInput i index st =
     (if i < numInput then
        (case equalKeys (groupingKeys' cfg) inp (int index) inp (int i) of
           Inl e \<Rightarrow> Inl e
         | Inr equal \<Rightarrow>
             if equal then
               (case nthE GroupOutOfRange (inputGroups' st) (int index) of
                  Inl e \<Rightarrow> Inl e
                | Inr g \<Rightarrow>
                   (case assignAt GroupOutOfRange (inputGroups' st) i g of
                      Inl e \<Rightarrow> Inl e
                    | Inr gs \<Rightarrow>
                        groupLoop cfg inp numInput (Suc i) index (st\<lparr>inputGroups' := gs\<rparr>)))
             else
               (case startNewGroup cfg i st of
                  Inl e \<Rightarrow> Inl e
                | Inr (newGroup, st1) \<Rightarrow>
                   (case assignAt GroupOutOfRange (inputGroups' st1) i newGroup of
                      Inl e \<Rightarrow> Inl e
                    | Inr gs \<Rightarrow>
                        groupLoop cfg inp numInput (Suc i) i (st1\<lparr>inputGroups' := gs\<rparr>))))
      else Inr st)"
  by pat_completeness auto
termination
  by (relation "measure (\<lambda>(cfg, inp, numInput, i, index, st). numInput - i)") auto

text \<open>
  \<^verbatim>\<open>decodedKeys_[i].decode(*input_->childAt(groupingKeys_[i]), inputRows_)\<close> for every
  grouping key; all rows are selected, so the decoded column is the child itself.
\<close>

definition decodeKeys :: "'acc config \<Rightarrow> rowvector \<Rightarrow> 'acc state \<Rightarrow> error + 'acc state" where
  "decodeKeys cfg inp st =
     foldE (\<lambda>i st. bindE (nthE ColumnOutOfRange (groupingKeys' cfg) (int i)) (\<lambda>channel.
                    bindE (childAt inp channel) (\<lambda>c.
                    bindE (assignAt ColumnOutOfRange (decodedKeys' st) i c) (\<lambda>decoded.
                      Inr (st\<lparr>decodedKeys' := decoded\<rparr>)))))
       [0..<length (groupingKeys' cfg)] st"

definition assignGroups :: "'acc config \<Rightarrow> 'acc state \<Rightarrow> error + 'acc state" where
  "assignGroups cfg st =
     (case input' st of
        None \<Rightarrow> Inl NullPointer
      | Some inp \<Rightarrow>
          let numInput = rv_size inp;
              st1 = st\<lparr>inputGroups' := resize numInput None (inputGroups' st)\<rparr>
          in bindE (case prevInput' st1 of
                      None \<Rightarrow> Inr (0, st1)
                    | Some prev \<Rightarrow>
                        let prevIndex = int (rv_size prev) - 1
                        in bindE (nthE GroupOutOfRange (groups' st1) (int (numGroups' st1) - 1))
                             (\<lambda>prevGroup.
                                seamLoop cfg prev prevIndex prevGroup inp numInput 0 st1))
               (\<lambda>(index, st2).
                  if index < numInput then
                    bindE (decodeKeys cfg inp st2) (\<lambda>st3.
                    bindE (startNewGroup cfg index st3) (\<lambda>(newGroup, st4).
                    bindE (assignAt GroupOutOfRange (inputGroups' st4) index newGroup) (\<lambda>gs.
                      groupLoop cfg inp numInput (index + 1) index (st4\<lparr>inputGroups' := gs\<rparr>))))
                  else Inr st2))"

subsection \<open>Updating the kernels\<close>

definition getSelectivityVector :: "'acc state \<Rightarrow> nat \<Rightarrow> error + bool list" where
  "getSelectivityVector st aggregateIndex =
     bindE (activeRows (maskedRows' st) aggregateIndex) (\<lambda>rows.
       Inr (case rows of Some active \<Rightarrow> active | None \<Rightarrow> inputRows' st))"

definition aggregateArgs :: "'acc config \<Rightarrow> rowvector option \<Rightarrow> nat \<Rightarrow> error + VectorPtr list" where
  "aggregateArgs cfg inp i =
     bindE (nthE ColumnOutOfRange (args' cfg) (int i)) (\<lambda>channels.
       mapE (\<lambda>j. if channels ! j = kConstantChannel then
                    bindE (nthE ColumnOutOfRange (constantArgs' cfg) (int i)) (\<lambda>constants.
                      nthE ColumnOutOfRange constants (int j))
                  else
                    (case inp of
                       None \<Rightarrow> Inl NullPointer
                     | Some batch \<Rightarrow>
                         bindE (childAt batch (channels ! j)) (\<lambda>c. Inr (Some (FlatVector c)))))
         [0..<length channels])"

definition evaluateAggregate :: "'acc config \<Rightarrow> nat \<Rightarrow> 'acc state \<Rightarrow> error + 'acc state" where
  "evaluateAggregate cfg i st =
     bindE (nthE ColumnOutOfRange (aggregates' cfg) (int i)) (\<lambda>aggregate.
     bindE (aggregateArgs cfg (input' st) i) (\<lambda>args.
     bindE (getSelectivityVector st i) (\<lambda>rows.
       if isRawInput (step' cfg) then
         bindE (addRawInput aggregate i (inputGroups' st) rows args False (rows' st)) (\<lambda>rc.
           Inr (st\<lparr>rows' := rc,
                   calls' := calls' st @ [AddRawInput i (inputGroups' st) rows args False]\<rparr>))
       else
         bindE (addIntermediateResults aggregate i (inputGroups' st) rows args False (rows' st)) (\<lambda>rc.
           Inr (st\<lparr>rows' := rc,
                   calls' := calls' st @ [AddIntermediateResults i (inputGroups' st) rows args False]\<rparr>)))))"

definition evaluateAggregates :: "'acc config \<Rightarrow> 'acc state \<Rightarrow> error + 'acc state" where
  "evaluateAggregates cfg st = foldE (evaluateAggregate cfg) [0..<length (aggregates' cfg)] st"

subsection \<open>The driver's calls\<close>

definition addInput :: "rowvector \<Rightarrow> 'acc state \<Rightarrow> 'acc state" where
  "addInput inp st = st\<lparr>input' := Some inp\<rparr>"

text \<open>Modelled from the spec: \<^verbatim>\<open>Operator::noMoreInput()\<close> of the base class sets the flag.\<close>

definition noMoreInput :: "'acc state \<Rightarrow> 'acc state" where
  "noMoreInput st = st\<lparr>noMoreInput' := True\<rparr>"

definition isFinished :: "'acc state \<Rightarrow> bool" where
  "isFinished st = (noMoreInput' st \<and> input' st = None \<and> numGroups' st = 0)"

text \<open>\<^verbatim>\<open>std::copy(first, last, out)\<close> into a vector, \<open>out\<close> given as a position of it.\<close>

definition stdCopy :: "'a list \<Rightarrow> 'a list \<Rightarrow> nat \<Rightarrow> error + 'a list" where
  "stdCopy src dst out =
     (if out + length src \<le> length dst
      then Inr (take out dst @ src @ drop (out + length src) dst)
      else Inl GroupOutOfRange)"

text \<open>
  The rotation of \<^verbatim>\<open>groups_\<close> after a batch of \<open>n\<close> groups went out: the remaining
  entries move to the front, the \<open>n\<close> entries of the batch to the end.
\<close>

definition rotateGroups :: "nat \<Rightarrow> ptr list \<Rightarrow> error + ptr list" where
  "rotateGroups n groups =
     (if n \<le> length groups then
        bindE (stdCopy (drop n groups) (replicate (length groups) None) 0) (\<lambda>copy.
          stdCopy (take n groups) copy (length groups - n))
      else Inl GroupOutOfRange)"

definition initializeAggregateGroups ::
  "'acc config \<Rightarrow> nat list \<Rightarrow> nat \<Rightarrow> 'acc state \<Rightarrow> error + 'acc state" where
  "initializeAggregateGroups cfg newGroups i st =
     bindE (nthE ColumnOutOfRange (aggregates' cfg) (int i)) (\<lambda>aggregate.
     bindE (initializeNewGroups aggregate i (groups' st) newGroups (rows' st)) (\<lambda>rc.
       Inr (st\<lparr>rows' := rc,
               calls' := calls' st @ [InitializeNewGroups i (groups' st) newGroups]\<rparr>)))"

text \<open>
  The body of \<^verbatim>\<open>getOutput()\<close> for a pending input, up to the update of the kernels:
  the selection of all rows, the masks, the assignment of the rows to groups, the
  initialization of the groups the batch opened, the update.
\<close>

definition processInput :: "'acc config \<Rightarrow> rowvector \<Rightarrow> 'acc state \<Rightarrow> error + 'acc state" where
  "processInput cfg inp st =
     (let numInput = rv_size inp;
          st1 = st\<lparr>inputRows' := replicate numInput True\<rparr>
      in bindE (masksAddInput (maskChannels' cfg) inp (inputRows' st1)) (\<lambda>masked.
         let st2 = st1\<lparr>maskedRows' := masked\<rparr>;
             numPrevGroups = numGroups' st2
         in bindE (assignGroups cfg st2) (\<lambda>st3.
            let newGroups = [numPrevGroups..<numPrevGroups + (numGroups' st3 - numPrevGroups)]
            in bindE (foldE (initializeAggregateGroups cfg newGroups)
                        [0..<length (aggregates' cfg)] st3) (\<lambda>st4.
                 evaluateAggregates cfg st4))))"

text \<open>
  The rest of it: a batch of \<^verbatim>\<open>outputBatchSize_\<close> groups goes out when more groups
  than that are open, and the vector of groups is rotated.
\<close>

definition emitBatch :: "'acc config \<Rightarrow> 'acc state \<Rightarrow> error + (rowvector option \<times> 'acc state)" where
  "emitBatch cfg st =
     (if numGroups' st > outputBatchSize' cfg then
        bindE (createOutput cfg (outputBatchSize' cfg) st) (\<lambda>(output, st1).
        bindE (rotateGroups (outputBatchSize' cfg) (groups' st1)) (\<lambda>copy.
          Inr (Some output,
               st1\<lparr>groups' := copy, numGroups' := numGroups' st1 - outputBatchSize' cfg\<rparr>)))
      else Inr (None, st))"

definition getOutput :: "'acc config \<Rightarrow> 'acc state \<Rightarrow> error + (rowvector option \<times> 'acc state)" where
  "getOutput cfg st =
     (case input' st of
        None \<Rightarrow>
          if noMoreInput' st \<and> numGroups' st > 0 then
            bindE (createOutput cfg (numGroups' st) st) (\<lambda>(output, st1).
              Inr (Some output, st1\<lparr>numGroups' := 0\<rparr>))
          else Inr (None, st)
      | Some inp \<Rightarrow>
          bindE (processInput cfg inp st) (\<lambda>st1.
          bindE (emitBatch cfg st1) (\<lambda>(output, st2).
            Inr (output, st2\<lparr>prevInput' := input' st2, input' := None\<rparr>))))"

text \<open>
  The driver: it pushes a batch with \<^verbatim>\<open>addInput\<close> and pulls with \<^verbatim>\<open>getOutput\<close>,
  batch after batch, then calls \<^verbatim>\<open>noMoreInput\<close> and pulls once more, which is
  the terminal flush. \<open>drive\<close> returns the batches the operator gave, in order.
\<close>

fun pushAll :: "'acc config \<Rightarrow> rowvector list \<Rightarrow> 'acc state \<Rightarrow> error + (rowvector list \<times> 'acc state)" where
  "pushAll cfg [] st = Inr ([], st)"
| "pushAll cfg (b # bs) st =
     bindE (getOutput cfg (addInput b st)) (\<lambda>(output, st1).
     bindE (pushAll cfg bs st1) (\<lambda>(outputs, st2).
       Inr ((case output of None \<Rightarrow> [] | Some batch \<Rightarrow> [batch]) @ outputs, st2)))"

definition drive :: "'acc config \<Rightarrow> rowvector list \<Rightarrow> 'acc state \<Rightarrow> error + (rowvector list \<times> 'acc state)" where
  "drive cfg batches st =
     bindE (pushAll cfg batches st) (\<lambda>(outputs, st1).
     bindE (getOutput cfg (noMoreInput st1)) (\<lambda>(output, st2).
       Inr (outputs @ (case output of None \<Rightarrow> [] | Some batch \<Rightarrow> [batch]), st2)))"

section \<open>Well-formed states\<close>

text \<open>
  The pool of group slots as the operator keeps it between calls: the live groups
  are the first \<open>numGroups'\<close> entries of \<open>groups'\<close>, every entry points to a row
  of the container, no two entries point to the same row, and every row has one
  key per grouping key and one accumulator per aggregate.
\<close>

definition validPtr :: "'acc rowContainer \<Rightarrow> ptr \<Rightarrow> bool" where
  "validPtr rc p = (case p of None \<Rightarrow> False | Some a \<Rightarrow> a < length (rc_rows rc))"

definition rowShaped :: "'acc config \<Rightarrow> 'acc grouprow \<Rightarrow> bool" where
  "rowShaped cfg r = (length (rowKeys r) = length (groupingKeys' cfg) \<and>
                      length (rowAccs r) = length (aggregates' cfg))"

definition slotsOk :: "'acc config \<Rightarrow> 'acc state \<Rightarrow> bool" where
  "slotsOk cfg st =
     (numGroups' st \<le> length (groups' st) \<and>
      distinct (groups' st) \<and>
      list_all (validPtr (rows' st)) (groups' st) \<and>
      rc_numKeys (rows' st) = length (groupingKeys' cfg) \<and>
      rc_numAccs (rows' st) = length (aggregates' cfg) \<and>
      list_all (rowShaped cfg) (rc_rows (rows' st)) \<and>
      length (decodedKeys' st) = length (groupingKeys' cfg))"

text \<open>The row a slot holds right after \<^verbatim>\<open>startNewGroup(index)\<close>.\<close>

definition keyedRow :: "'acc config \<Rightarrow> column list \<Rightarrow> nat \<Rightarrow> 'acc grouprow" where
  "keyedRow cfg decoded index =
     \<lparr>rowKeys = map (\<lambda>c. c ! index) decoded, rowAccs = replicate (length (aggregates' cfg)) None\<rparr>"

text \<open>The unsupported features of a plan node.\<close>

definition requestsUnsupported :: "aggregationNode \<Rightarrow> bool" where
  "requestsUnsupported node =
     (list_ex (\<lambda>a. aggSortingKeys a \<noteq> [] \<or> aggDistinct a) (nodeAggregates node) \<or>
      nodeIgnoreNullKeys node)"

section \<open>A concrete operator\<close>

text \<open>
  A sum kernel over integers, a plan node that groups on column 0 and sums
  column 1, and the configuration and state \<^verbatim>\<open>initialize()\<close> builds from it.
\<close>

definition sumKernel :: "int aggregate" where
  "sumKernel =
     \<lparr>initialValue = 0,
      rawUpdate = (\<lambda>a vs. case vs of [Some x] \<Rightarrow> a + x | _ \<Rightarrow> a),
      intermediateUpdate = (\<lambda>a vs. case vs of [Some x] \<Rightarrow> a + x | _ \<Rightarrow> a),
      finalValue = Some,
      accumulatorValue = Some\<rparr>"

definition sumCall :: aggregateCall where
  "sumCall = \<lparr>aggName = ''sum'', aggInputs = [FieldAccess 1], aggSortingKeys = [],
              aggDistinct = False, aggMask = None\<rparr>"

definition sumNode :: aggregationNode where
  "sumNode = \<lparr>nodeStep = kSingle, nodeGroupingKeys = [0], nodeAggregates = [sumCall],
              nodeIgnoreNullKeys = False\<rparr>"

definition sumConfig :: "nat \<Rightarrow> int config" where
  "sumConfig n =
     \<lparr>outputBatchSize' = n, step' = kSingle, groupingKeys' = [0],
      aggregates' = [sumKernel], args' = [[1]], constantArgs' = [[None]],
      maskChannels' = [None]\<rparr>"

definition sumState :: "int state" where
  "sumState =
     \<lparr>input' = None, prevInput' = None, noMoreInput' = False, inputRows' = [],
      maskedRows' = [], decodedKeys' = [[]], inputGroups' = [], numGroups' = 0,
      groups' = [], rows' = \<lparr>rc_numKeys = 1, rc_numAccs = 1, rc_rows = []\<rparr>,
      calls' = []\<rparr>"

definition batchOf :: "int list \<Rightarrow> int list \<Rightarrow> rowvector" where
  "batchOf ks xs = \<lparr>rv_size = length ks, rv_children = [map Some ks, map Some xs]\<rparr>"

text \<open>A pool with one live group and one slot to reuse.\<close>

definition reuseState :: "int state" where
  "reuseState = sumState\<lparr>decodedKeys' := [[Some 7, Some 8]], groups' := [Some 1, Some 0], numGroups' := 1,
      rows' := \<lparr>rc_numKeys = 1, rc_numAccs = 1,
                rc_rows = [\<lparr>rowKeys = [Some 4], rowAccs = [Some 10]\<rparr>, \<lparr>rowKeys = [Some 5], rowAccs = [Some 2]\<rparr>]\<rparr>\<rparr>"

text \<open>The same pool with both groups live.\<close>

definition twoGroups :: "int state" where
  "twoGroups = reuseState\<lparr>numGroups' := 2\<rparr>"

text \<open>
  The same operator with a mask on column 2, and a batch of three rows of which
  the mask drops the second.
\<close>

definition maskedConfig :: "int config" where
  "maskedConfig = (sumConfig 8)\<lparr>maskChannels' := [Some 2]\<rparr>"

definition maskedBatch :: rowvector where
  "maskedBatch = \<lparr>rv_size = 3,
      rv_children = [[Some 1, Some 1, Some 2], [Some 10, Some 20, Some 30], [Some 1, Some 0, Some 1]]\<rparr>"

section \<open>What the slots hold\<close>

text \<open>
  The row of slot \<open>j\<close>, and the rows of the live groups in slot order. A slot is
  initialized when every accumulator of its row has been written.
\<close>

definition slotRow :: "'acc state \<Rightarrow> nat \<Rightarrow> 'acc grouprow" where
  "slotRow st j = rc_rows (rows' st) ! the (groups' st ! j)"

definition liveRows :: "'acc state \<Rightarrow> 'acc grouprow list" where
  "liveRows st = map (slotRow st) [0..<numGroups' st]"

definition initializedRow :: "'acc grouprow \<Rightarrow> bool" where
  "initializedRow r = list_all (\<lambda>a. a \<noteq> None) (rowAccs r)"

text \<open>The way a result is read out of an accumulator, and the way a row updates it.\<close>

definition extractOf :: "'acc config \<Rightarrow> nat \<Rightarrow> 'acc \<Rightarrow> cell" where
  "extractOf cfg i =
     (if isPartialOutput (step' cfg) then accumulatorValue (aggregates' cfg ! i)
      else finalValue (aggregates' cfg ! i))"

definition updateOf :: "'acc config \<Rightarrow> nat \<Rightarrow> 'acc \<Rightarrow> cell list \<Rightarrow> 'acc" where
  "updateOf cfg i =
     (if isRawInput (step' cfg) then rawUpdate (aggregates' cfg ! i)
      else intermediateUpdate (aggregates' cfg ! i))"

definition extractCall :: "'acc config \<Rightarrow> ptr list \<Rightarrow> nat \<Rightarrow> nat \<Rightarrow> kernelCall" where
  "extractCall cfg groups n i =
     (if isPartialOutput (step' cfg) then ExtractAccumulators i groups n
      else ExtractValues i groups n)"

text \<open>The batch of the first \<open>n\<close> slots: key columns, then aggregate columns.\<close>

definition outputOf :: "'acc config \<Rightarrow> 'acc state \<Rightarrow> nat \<Rightarrow> rowvector" where
  "outputOf cfg st n =
     \<lparr>rv_size = n,
      rv_children =
        map (\<lambda>k. map (\<lambda>r. rowKeys (slotRow st r) ! k) [0..<n]) [0..<length (groupingKeys' cfg)] @
        map (\<lambda>i. map (\<lambda>r. extractOf cfg i (the (rowAccs (slotRow st r) ! i))) [0..<n])
          [0..<length (aggregates' cfg)]\<rparr>"

section \<open>Rows and the reference group-by\<close>

text \<open>
  The rows of a batch, each with one cell per column, and what the operator reads
  of a row: its grouping key, whether the mask of aggregate \<open>i\<close> selects it, and
  the argument values of aggregate \<open>i\<close>.
\<close>

definition batchRows :: "rowvector \<Rightarrow> cell list list" where
  "batchRows b = map (\<lambda>r. map (\<lambda>c. c ! r) (rv_children b)) [0..<rv_size b]"

definition keyOf :: "'acc config \<Rightarrow> cell list \<Rightarrow> cell list" where
  "keyOf cfg row = map (\<lambda>k. row ! k) (groupingKeys' cfg)"

definition selectedFor :: "'acc config \<Rightarrow> nat \<Rightarrow> cell list \<Rightarrow> bool" where
  "selectedFor cfg i row =
     (case maskChannels' cfg ! i of None \<Rightarrow> True | Some channel \<Rightarrow> row ! channel = Some 1)"

definition constantValue :: "VectorPtr \<Rightarrow> cell" where
  "constantValue v = (case v of Some (ConstantVector x) \<Rightarrow> x | _ \<Rightarrow> None)"

definition argValues :: "'acc config \<Rightarrow> nat \<Rightarrow> cell list \<Rightarrow> cell list" where
  "argValues cfg i row =
     map (\<lambda>j. if args' cfg ! i ! j = kConstantChannel
              then constantValue (constantArgs' cfg ! i ! j)
              else row ! (args' cfg ! i ! j)) [0..<length (args' cfg ! i)]"

definition stepAcc :: "'acc config \<Rightarrow> nat \<Rightarrow> 'acc \<Rightarrow> cell list \<Rightarrow> 'acc" where
  "stepAcc cfg i a row =
     (if selectedFor cfg i row then updateOf cfg i a (argValues cfg i row) else a)"

text \<open>The maximal runs of consecutive elements with the same key, in order.\<close>

function runs :: "('a \<Rightarrow> 'k) \<Rightarrow> 'a list \<Rightarrow> 'a list list" where
  "runs key [] = []"
| "runs key (x # xs) =
     (x # takeWhile (\<lambda>y. key y = key x) xs) # runs key (dropWhile (\<lambda>y. key y = key x) xs)"
  by pat_completeness auto
termination
  by (relation "measure (\<lambda>(key, xs). length xs)") (auto simp: less_Suc_eq_le length_dropWhile_le)

text \<open>
  The reference group-by over a list of rows: one output row per maximal run of
  rows with the same grouping key, made of the key of the run and, for every
  aggregate, the result read out of the accumulator that started with the
  kernel's initial value and was updated by the selected rows of the run, in
  order.
\<close>

definition aggregateOver :: "'acc config \<Rightarrow> nat \<Rightarrow> cell list list \<Rightarrow> 'acc" where
  "aggregateOver cfg i run = foldl (stepAcc cfg i) (initialValue (aggregates' cfg ! i)) run"

definition referenceGroupBy :: "'acc config \<Rightarrow> cell list list \<Rightarrow> cell list list" where
  "referenceGroupBy cfg rows =
     map (\<lambda>run. keyOf cfg (hd run) @
                map (\<lambda>i. extractOf cfg i (aggregateOver cfg i run)) [0..<length (aggregates' cfg)])
       (runs (keyOf cfg) rows)"

text \<open>The distinct elements of a list, in the order they are first met.\<close>

function firstSeen :: "'a list \<Rightarrow> 'a list" where
  "firstSeen [] = []"
| "firstSeen (x # xs) = x # firstSeen (removeAll x xs)"
  by pat_completeness auto
termination
  by (relation "measure length") (auto simp: less_Suc_eq_le length_removeAll_less_eq)

text \<open>
  The slot every row of a batch goes to, and the keys of the groups the batch opens,
  given the key of the last open group (\<open>None\<close> before the first batch) and the
  number of open groups.
\<close>

fun slotsFrom :: "'k option \<Rightarrow> nat \<Rightarrow> 'k list \<Rightarrow> nat list" where
  "slotsFrom cur n [] = []"
| "slotsFrom cur n (k # ks) =
     (if cur = Some k then (n - 1) # slotsFrom cur n ks
      else n # slotsFrom (Some k) (Suc n) ks)"

fun opened :: "'k option \<Rightarrow> 'k list \<Rightarrow> 'k list" where
  "opened cur [] = []"
| "opened cur (k # ks) =
     (if cur = Some k then opened cur ks else k # opened (Some k) ks)"

section \<open>Well-formed configurations and batches\<close>

text \<open>
  A configuration as \<^verbatim>\<open>initialize()\<close> builds it: one argument list, one list of
  constants and one mask channel per aggregate, and a constant vector wherever an
  argument is a constant.
\<close>

definition configOk :: "'acc config \<Rightarrow> bool" where
  "configOk cfg =
     (length (args' cfg) = length (aggregates' cfg) \<and>
      length (constantArgs' cfg) = length (aggregates' cfg) \<and>
      length (maskChannels' cfg) = length (aggregates' cfg) \<and>
      list_all (\<lambda>i. length (constantArgs' cfg ! i) = length (args' cfg ! i) \<and>
                    list_all (\<lambda>j. args' cfg ! i ! j = kConstantChannel \<longrightarrow>
                                  (\<exists>x. constantArgs' cfg ! i ! j = Some (ConstantVector x)))
                      [0..<length (args' cfg ! i)])
        [0..<length (aggregates' cfg)])"

text \<open>
  A batch of the operator's input type: every column has as many rows as the
  batch, and the grouping keys, the arguments and the masks refer to columns the
  batch has.
\<close>

definition batchOk :: "'acc config \<Rightarrow> rowvector \<Rightarrow> bool" where
  "batchOk cfg b =
     (list_all (\<lambda>c. length c = rv_size b) (rv_children b) \<and>
      list_all (\<lambda>k. k < length (rv_children b)) (groupingKeys' cfg) \<and>
      list_all (list_all (\<lambda>channel. channel = kConstantChannel \<or> channel < length (rv_children b)))
        (args' cfg) \<and>
      list_all (\<lambda>m. case m of None \<Rightarrow> True | Some channel \<Rightarrow> channel < length (rv_children b))
        (maskChannels' cfg))"

section \<open>The pool as a table\<close>

text \<open>
  The pool seen through the vector of slot pointers: the key tuples of the slots,
  and for every aggregate the column of its accumulators, both in slot order.
\<close>

definition poolOk :: "'acc config \<Rightarrow> ptr list \<Rightarrow> 'acc rowContainer \<Rightarrow> bool" where
  "poolOk cfg gs rc =
     (distinct gs \<and> list_all (validPtr rc) gs \<and>
      rc_numKeys rc = length (groupingKeys' cfg) \<and>
      rc_numAccs rc = length (aggregates' cfg) \<and>
      list_all (rowShaped cfg) (rc_rows rc))"

definition keysT :: "ptr list \<Rightarrow> 'acc rowContainer \<Rightarrow> cell list list" where
  "keysT gs rc = map (\<lambda>p. rowKeys (rc_rows rc ! the p)) gs"

definition accsT :: "nat \<Rightarrow> ptr list \<Rightarrow> 'acc rowContainer \<Rightarrow> 'acc option list" where
  "accsT i gs rc = map (\<lambda>p. rowAccs (rc_rows rc ! the p) ! i) gs"

text \<open>A column with the entries of positions \<open>[a, b)\<close> overwritten by \<open>v\<close>.\<close>

definition overwrite :: "nat \<Rightarrow> nat \<Rightarrow> 'a \<Rightarrow> 'a list \<Rightarrow> 'a list" where
  "overwrite a b v xs = map (\<lambda>j. if a \<le> j \<and> j < b then v else xs ! j) [0..<length xs]"

text \<open>
  The vectors and the selection the operator hands to kernel \<open>i\<close> for a batch, the
  calls it makes, and the effect of the update call on the kernel's column of
  accumulators: every row of the batch updates the accumulator of its slot.
\<close>

definition argVectors :: "'acc config \<Rightarrow> rowvector \<Rightarrow> nat \<Rightarrow> VectorPtr list" where
  "argVectors cfg inp i =
     map (\<lambda>j. if args' cfg ! i ! j = kConstantChannel then constantArgs' cfg ! i ! j
              else Some (FlatVector (rv_children inp ! (args' cfg ! i ! j))))
       [0..<length (args' cfg ! i)]"

definition selectionOf :: "'acc config \<Rightarrow> rowvector \<Rightarrow> nat \<Rightarrow> bool list" where
  "selectionOf cfg inp i = map (selectedFor cfg i) (batchRows inp)"

definition updateCall :: "'acc config \<Rightarrow> rowvector \<Rightarrow> ptr list \<Rightarrow> nat \<Rightarrow> kernelCall" where
  "updateCall cfg inp inputGroups i =
     (if isRawInput (step' cfg)
      then AddRawInput i inputGroups (selectionOf cfg inp i) (argVectors cfg inp i) False
      else AddIntermediateResults i inputGroups (selectionOf cfg inp i) (argVectors cfg inp i) False)"

definition absorbInto ::
  "'acc config \<Rightarrow> nat \<Rightarrow> 'acc option list \<Rightarrow> (nat \<times> cell list) list \<Rightarrow> 'acc option list" where
  "absorbInto cfg i A sr =
     foldl (\<lambda>A (s, row). A[s := map_option (\<lambda>a. stepAcc cfg i a row) (A ! s)]) A sr"

text \<open>
  The keys and the accumulator columns of the live groups, the keys of the rows of
  a batch, and the key the first row of the next batch is compared with.
\<close>

definition liveKeys :: "'acc state \<Rightarrow> cell list list" where
  "liveKeys st = take (numGroups' st) (keysT (groups' st) (rows' st))"

definition liveAccs :: "nat \<Rightarrow> 'acc state \<Rightarrow> 'acc option list" where
  "liveAccs i st = take (numGroups' st) (accsT i (groups' st) (rows' st))"

definition batchKeys :: "'acc config \<Rightarrow> rowvector \<Rightarrow> cell list list" where
  "batchKeys cfg b = map (keyOf cfg) (batchRows b)"

definition lastKey :: "'acc config \<Rightarrow> rowvector option \<Rightarrow> cell list option" where
  "lastKey cfg prev =
     (case prev of None \<Rightarrow> None | Some p \<Rightarrow> Some (keyOf cfg (batchRows p ! (rv_size p - 1))))"

text \<open>The members that the assignment of rows to groups leaves alone.\<close>

definition unchangedButPool :: "'acc state \<Rightarrow> 'acc state \<Rightarrow> bool" where
  "unchangedButPool st st1 =
     (input' st1 = input' st \<and> prevInput' st1 = prevInput' st \<and>
      noMoreInput' st1 = noMoreInput' st \<and> inputRows' st1 = inputRows' st \<and>
      maskedRows' st1 = maskedRows' st \<and> calls' st1 = calls' st)"

text \<open>
  What the assignment of rows with keys \<open>ks\<close> does to the pool, \<open>cur\<close> being the key
  of the last open group: the groups that were open keep their slots, keys and
  accumulators, and the groups the rows open follow them, in order.
\<close>

definition assigned ::
  "'acc config \<Rightarrow> 'acc state \<Rightarrow> 'acc state \<Rightarrow> cell list option \<Rightarrow> cell list list \<Rightarrow> bool" where
  "assigned cfg st st1 cur ks =
     (slotsOk cfg st1 \<and>
      numGroups' st1 = numGroups' st + length (opened cur ks) \<and>
      take (numGroups' st) (groups' st1) = take (numGroups' st) (groups' st) \<and>
      liveKeys st1 = liveKeys st @ opened cur ks \<and>
      (\<forall>a. take (numGroups' st) (accsT a (groups' st1) (rows' st1)) = liveAccs a st) \<and>
      unchangedButPool st st1)"

section \<open>An operator ready for a batch\<close>

text \<open>
  The state in which \<^verbatim>\<open>getOutput()\<close> finds a pending batch \<open>inp\<close>: a configuration
  as \<^verbatim>\<open>initialize()\<close> builds it, a batch of the input type, a well-formed pool whose
  open groups are initialized and, when a previous batch is retained, that batch
  has a last row and a group is open for it.
\<close>

definition seamOk :: "'acc config \<Rightarrow> 'acc state \<Rightarrow> bool" where
  "seamOk cfg st =
     (case prevInput' st of
        None \<Rightarrow> True
      | Some prev \<Rightarrow> batchOk cfg prev \<and> 0 < rv_size prev \<and> 0 < numGroups' st)"

definition pendingOk :: "'acc config \<Rightarrow> rowvector \<Rightarrow> 'acc state \<Rightarrow> bool" where
  "pendingOk cfg inp st =
     (configOk cfg \<and> batchOk cfg inp \<and> slotsOk cfg st \<and>
      list_all initializedRow (liveRows st) \<and> seamOk cfg st \<and> input' st = Some inp)"

section \<open>Results that can fail\<close>

lemma bindE_Inr [simp]: "bindE (Inr x) f = f x"
  by (simp add: bindE_def)

lemma bindE_Inl [simp]: "bindE (Inl e) f = Inl e"
  by (simp add: bindE_def)

lemma bindE_eq_Inr: "bindE m f = Inr y \<longleftrightarrow> (\<exists>x. m = Inr x \<and> f x = Inr y)"
  by (cases m) auto

lemma foldE_append: "foldE f (xs @ ys) s = bindE (foldE f xs s) (foldE f ys)"
  by (induction xs arbitrary: s) (auto simp: bindE_def split: sum.splits)

lemma mapE_all: "(\<And>x. x \<in> set xs \<Longrightarrow> f x = Inr (g x)) \<Longrightarrow> mapE f xs = Inr (map g xs)"
  by (induction xs) auto

lemma mapE_Inr_length: "mapE f xs = Inr ys \<Longrightarrow> length ys = length xs"
  by (induction xs arbitrary: ys) (auto simp: bindE_eq_Inr)

lemma mapE_Inr_nth: "mapE f xs = Inr ys \<Longrightarrow> i < length xs \<Longrightarrow> f (xs ! i) = Inr (ys ! i)"
proof (induction xs arbitrary: ys i)
  case Nil
  then show ?case by simp
next
  case (Cons x xs)
  then show ?case by (cases i) (auto simp: bindE_eq_Inr)
qed

lemma nthE_in [simp]: "i < length xs \<Longrightarrow> nthE e xs (int i) = Inr (xs ! i)"
  by (simp add: nthE_def)

lemma nthE_out: "\<not> i < length xs \<Longrightarrow> nthE e xs (int i) = Inl e"
  by (simp add: nthE_def)

lemma assignAt_in [simp]: "i < length xs \<Longrightarrow> assignAt e xs i v = Inr (xs[i := v])"
  by (simp add: assignAt_def)

section \<open>Opening a group\<close>

lemma store_ok:
  "a < length (rc_rows rc) \<Longrightarrow> i < length (rowKeys (rc_rows rc ! a)) \<Longrightarrow> index < length decoded \<Longrightarrow>
   store rc decoded index (Some a) i =
     Inr (rc\<lparr>rc_rows := (rc_rows rc)[a := (rc_rows rc ! a)\<lparr>rowKeys := (rowKeys (rc_rows rc ! a))[i := decoded ! index]\<rparr>]\<rparr>)"
  by (simp add: store_def rowAt_def putRow_def)

lemma storeKeys_prefix:
  assumes "a < length (rc_rows (rows' st))"
    and "n \<le> length (rowKeys (rc_rows (rows' st) ! a))"
    and "n \<le> length (decodedKeys' st)"
    and "\<forall>c\<in>set (decodedKeys' st). index < length c"
  shows "foldE (\<lambda>i st. bindE (nthE ColumnOutOfRange (decodedKeys' st) (int i)) (\<lambda>decoded.
                    bindE (store (rows' st) decoded index (Some a) i) (\<lambda>rc.
                      Inr (st\<lparr>rows' := rc\<rparr>)))) [0..<n] st =
         Inr (st\<lparr>rows' := (rows' st)\<lparr>rc_rows := (rc_rows (rows' st))[a :=
                (rc_rows (rows' st) ! a)\<lparr>rowKeys :=
                   map (\<lambda>i. decodedKeys' st ! i ! index) [0..<n] @ drop n (rowKeys (rc_rows (rows' st) ! a))\<rparr>]\<rparr>\<rparr>)"
  using assms
proof (induction n)
  case 0
  then show ?case by simp
next
  case (Suc n)
  have idx: "index < length (decodedKeys' st ! n)"
    using Suc.prems by (simp add: Suc_le_eq)
  have upd: "(map (\<lambda>i. decodedKeys' st ! i ! index) [0..<n] @ drop n (rowKeys (rc_rows (rows' st) ! a)))
        [n := decodedKeys' st ! n ! index] =
      map (\<lambda>i. decodedKeys' st ! i ! index) [0..<n] @ [decodedKeys' st ! n ! index] @
        drop (Suc n) (rowKeys (rc_rows (rows' st) ! a))"
  proof -
    let ?ks = "rowKeys (rc_rows (rows' st) ! a)"
    have "drop n ?ks = ?ks ! n # drop (Suc n) ?ks"
      using Suc.prems(2) Cons_nth_drop_Suc[of n ?ks] by simp
    then show ?thesis by (simp add: list_update_append)
  qed
  show ?case
    using Suc idx upd by (simp add: foldE_append store_ok Suc_le_eq)
qed


lemma storeKeys_ok:
  assumes "a < length (rc_rows (rows' st))"
    and "length (rowKeys (rc_rows (rows' st) ! a)) = length (groupingKeys' cfg)"
    and "length (decodedKeys' st) = length (groupingKeys' cfg)"
    and "\<forall>c\<in>set (decodedKeys' st). index < length c"
  shows "storeKeys cfg (Some a) index st =
         Inr (st\<lparr>rows' := (rows' st)\<lparr>rc_rows := (rc_rows (rows' st))[a :=
                (rc_rows (rows' st) ! a)\<lparr>rowKeys := map (\<lambda>c. c ! index) (decodedKeys' st)\<rparr>]\<rparr>\<rparr>)"
proof -
  let ?n = "length (groupingKeys' cfg)"
  have m: "map (\<lambda>i. decodedKeys' st ! i ! index) [0..<?n] = map (\<lambda>c. c ! index) (decodedKeys' st)"
    using assms(3) by (intro nth_equalityI) simp_all
  have d: "drop ?n (rowKeys (rc_rows (rows' st) ! a)) = []"
    using assms(2) by simp
  have "?n \<le> length (rowKeys (rc_rows (rows' st) ! a))" "?n \<le> length (decodedKeys' st)"
    using assms(2,3) by simp_all
  from storeKeys_prefix[OF assms(1) this assms(4)]
  show ?thesis
    unfolding storeKeys_def m d by simp
qed

lemma startNewGroup_reuse:
  assumes "slotsOk cfg st" and "numGroups' st < length (groups' st)"
    and "\<forall>c\<in>set (decodedKeys' st). index < length c"
  shows "\<exists>a. groups' st ! numGroups' st = Some a \<and> a < length (rc_rows (rows' st)) \<and>
     startNewGroup cfg index st =
       Inr (Some a, st\<lparr>numGroups' := numGroups' st + 1,
              rows' := (rows' st)\<lparr>rc_rows := (rc_rows (rows' st))[a := keyedRow cfg (decodedKeys' st) index]\<rparr>\<rparr>)"
proof -
  from assms(1,2) have "validPtr (rows' st) (groups' st ! numGroups' st)"
    by (simp add: slotsOk_def list_all_length)
  then obtain a where a: "groups' st ! numGroups' st = Some a" "a < length (rc_rows (rows' st))"
    by (auto simp: validPtr_def split: option.splits)
  have init: "initializeRow (rows' st) (Some a) True =
      Inr ((rows' st)\<lparr>rc_rows := (rc_rows (rows' st))[a := blankRow (rows' st)]\<rparr>)"
    using a by (simp add: initializeRow_def putRow_def)
  let ?st1 = "st\<lparr>numGroups' := numGroups' st + 1,
      rows' := (rows' st)\<lparr>rc_rows := (rc_rows (rows' st))[a := blankRow (rows' st)]\<rparr>\<rparr>"
  have "storeKeys cfg (Some a) index ?st1 =
      Inr (?st1\<lparr>rows' := (rows' ?st1)\<lparr>rc_rows := (rc_rows (rows' ?st1))[a :=
                (rc_rows (rows' ?st1) ! a)\<lparr>rowKeys := map (\<lambda>c. c ! index) (decodedKeys' ?st1)\<rparr>]\<rparr>\<rparr>)"
    using a assms(1,3) by (intro storeKeys_ok) (simp_all add: slotsOk_def blankRow_def)
  then show ?thesis
    using a init assms(1,2) by (simp add: startNewGroup_def Let_def blankRow_def keyedRow_def slotsOk_def)
qed

lemma startNewGroup_fresh:
  assumes "slotsOk cfg st" and "\<not> numGroups' st < length (groups' st)"
    and "\<forall>c\<in>set (decodedKeys' st). index < length c"
  shows "startNewGroup cfg index st =
       Inr (Some (length (rc_rows (rows' st))),
            st\<lparr>numGroups' := numGroups' st + 1,
               groups' := groups' st @ [Some (length (rc_rows (rows' st)))],
               rows' := (rows' st)\<lparr>rc_rows := rc_rows (rows' st) @ [keyedRow cfg (decodedKeys' st) index]\<rparr>\<rparr>)"
proof -
  let ?a = "length (rc_rows (rows' st))"
  let ?st1 = "st\<lparr>rows' := (rows' st)\<lparr>rc_rows := rc_rows (rows' st) @ [blankRow (rows' st)]\<rparr>\<rparr>"
  have n: "numGroups' st = length (groups' st)"
    using assms(1,2) by (simp add: slotsOk_def)
  have "storeKeys cfg (Some ?a) index ?st1 =
      Inr (?st1\<lparr>rows' := (rows' ?st1)\<lparr>rc_rows := (rc_rows (rows' ?st1))[?a :=
                (rc_rows (rows' ?st1) ! ?a)\<lparr>rowKeys := map (\<lambda>c. c ! index) (decodedKeys' ?st1)\<rparr>]\<rparr>\<rparr>)"
    using assms(1,3) by (intro storeKeys_ok) (simp_all add: slotsOk_def blankRow_def)
  then show ?thesis
    using n assms(1) by (simp add: startNewGroup_def Let_def newRow_def blankRow_def keyedRow_def
        slotsOk_def resize_def list_update_append)
qed

text \<open>
  C5. In a well-formed pool, \<^verbatim>\<open>startNewGroup(index)\<close> returns a slot and leaves
  \<open>numGroups'\<close> one higher; the slot is the entry \<open>numGroups' - 1\<close> of \<open>groups'\<close>
  afterwards. Its row holds the decoded grouping-key values of row \<open>index\<close> and is
  otherwise re-initialized: every accumulator of it is unwritten, whatever the
  row held before. No other row of the container changes.
  When \<open>numGroups'\<close> is below the size of \<open>groups'\<close>, the slot is the pointer
  \<open>groups'[numGroups']\<close> that was there, \<open>groups'\<close> is unchanged, the container
  has as many rows as before, and the state afterwards is the old one with the
  counter raised and that one row overwritten in place. Otherwise the slot is a
  new row of the container, appended to \<open>groups'\<close>, and the state afterwards is
  the old one with the counter raised, the pointer appended and the row appended.
\<close>

theorem startNewGroup_slot:
  assumes "slotsOk cfg st" and "\<forall>c\<in>set (decodedKeys' st). index < length c"
  shows "\<exists>slot st1 row. startNewGroup cfg index st = Inr (slot, st1) \<and>
      numGroups' st1 = numGroups' st + 1 \<and>
      groups' st1 ! (numGroups' st1 - 1) = slot \<and>
      rowAt (rows' st1) slot = Inr row \<and>
      rowKeys row = map (\<lambda>c. c ! index) (decodedKeys' st) \<and>
      rowAccs row = replicate (length (aggregates' cfg)) None \<and>
      (\<forall>a<length (rc_rows (rows' st)). Some a \<noteq> slot \<longrightarrow>
          rc_rows (rows' st1) ! a = rc_rows (rows' st) ! a) \<and>
      (if numGroups' st < length (groups' st)
       then slot = groups' st ! numGroups' st \<and> groups' st1 = groups' st \<and>
            length (rc_rows (rows' st1)) = length (rc_rows (rows' st)) \<and>
            st1 = st\<lparr>numGroups' := numGroups' st + 1,
                      rows' := (rows' st)\<lparr>rc_rows := (rc_rows (rows' st))[the slot := row]\<rparr>\<rparr>
       else slot = Some (length (rc_rows (rows' st))) \<and> groups' st1 = groups' st @ [slot] \<and>
            length (rc_rows (rows' st1)) = length (rc_rows (rows' st)) + 1 \<and>
            st1 = st\<lparr>numGroups' := numGroups' st + 1,
                      groups' := groups' st @ [slot],
                      rows' := (rows' st)\<lparr>rc_rows := rc_rows (rows' st) @ [row]\<rparr>\<rparr>)"
proof (cases "numGroups' st < length (groups' st)")
  case True
  let ?row = "keyedRow cfg (decodedKeys' st) index"
  from startNewGroup_reuse[OF assms(1) True assms(2)]
  obtain a where a: "groups' st ! numGroups' st = Some a" "a < length (rc_rows (rows' st))"
    and run: "startNewGroup cfg index st =
       Inr (Some a, st\<lparr>numGroups' := numGroups' st + 1,
              rows' := (rows' st)\<lparr>rc_rows := (rc_rows (rows' st))[a := ?row]\<rparr>\<rparr>)"
    by blast
  let ?st1 = "st\<lparr>numGroups' := numGroups' st + 1,
              rows' := (rows' st)\<lparr>rc_rows := (rc_rows (rows' st))[a := ?row]\<rparr>\<rparr>"
  have at: "rowAt (rows' ?st1) (Some a) = Inr ?row"
    using a by (simp add: rowAt_def)
  have others: "\<forall>b<length (rc_rows (rows' st)). Some b \<noteq> Some a \<longrightarrow>
      rc_rows (rows' ?st1) ! b = rc_rows (rows' st) ! b"
    by simp
  show ?thesis
    using True a run at others
    by (intro exI[of _ "Some a"] exI[of _ ?st1] exI[of _ ?row]) (simp add: keyedRow_def)
next
  case False
  let ?row = "keyedRow cfg (decodedKeys' st) index"
  let ?a = "length (rc_rows (rows' st))"
  let ?st1 = "st\<lparr>numGroups' := numGroups' st + 1,
               groups' := groups' st @ [Some ?a],
               rows' := (rows' st)\<lparr>rc_rows := rc_rows (rows' st) @ [?row]\<rparr>\<rparr>"
  have run: "startNewGroup cfg index st = Inr (Some ?a, ?st1)"
    by (rule startNewGroup_fresh[OF assms(1) False assms(2)])
  have n: "numGroups' st = length (groups' st)"
    using assms(1) False by (simp add: slotsOk_def)
  have at: "rowAt (rows' ?st1) (Some ?a) = Inr ?row"
    by (simp add: rowAt_def)
  have others: "\<forall>b<?a. Some b \<noteq> Some ?a \<longrightarrow>
      rc_rows (rows' ?st1) ! b = rc_rows (rows' st) ! b"
    by (simp add: nth_append)
  show ?thesis
    using False run n at others
    by (intro exI[of _ "Some ?a"] exI[of _ ?st1] exI[of _ ?row]) (simp add: keyedRow_def)
qed

lemma reuseState_ok: "slotsOk (sumConfig 2) reuseState"
  by (simp add: slotsOk_def sumConfig_def sumState_def reuseState_def validPtr_def rowShaped_def)

lemma freshState_ok: "slotsOk (sumConfig 2) (sumState\<lparr>decodedKeys' := [[Some 7, Some 8]]\<rparr>)"
  by (simp add: slotsOk_def sumConfig_def sumState_def validPtr_def rowShaped_def)

theorem startNewGroup_slot_witness:
  "(\<exists>slot st1 row. startNewGroup (sumConfig 2) 0 reuseState = Inr (slot, st1) \<and>
      numGroups' st1 = numGroups' reuseState + 1 \<and>
      groups' st1 ! (numGroups' st1 - 1) = slot \<and>
      rowAt (rows' st1) slot = Inr row \<and>
      rowKeys row = map (\<lambda>c. c ! 0) (decodedKeys' reuseState) \<and>
      rowAccs row = replicate (length (aggregates' (sumConfig 2))) None \<and>
      (\<forall>a<length (rc_rows (rows' reuseState)). Some a \<noteq> slot \<longrightarrow>
          rc_rows (rows' st1) ! a = rc_rows (rows' reuseState) ! a) \<and>
      (if numGroups' reuseState < length (groups' reuseState)
       then slot = groups' reuseState ! numGroups' reuseState \<and> groups' st1 = groups' reuseState \<and>
            length (rc_rows (rows' st1)) = length (rc_rows (rows' reuseState)) \<and>
            st1 = reuseState\<lparr>numGroups' := numGroups' reuseState + 1,
                      rows' := (rows' reuseState)\<lparr>rc_rows := (rc_rows (rows' reuseState))[the slot := row]\<rparr>\<rparr>
       else slot = Some (length (rc_rows (rows' reuseState))) \<and> groups' st1 = groups' reuseState @ [slot] \<and>
            length (rc_rows (rows' st1)) = length (rc_rows (rows' reuseState)) + 1 \<and>
            st1 = reuseState\<lparr>numGroups' := numGroups' reuseState + 1,
                      groups' := groups' reuseState @ [slot],
                      rows' := (rows' reuseState)\<lparr>rc_rows := rc_rows (rows' reuseState) @ [row]\<rparr>\<rparr>)) \<and>
   rc_rows (rows' (snd (projr (startNewGroup (sumConfig 2) 0 reuseState)))) =
     [\<lparr>rowKeys = [Some 7], rowAccs = [None]\<rparr>, \<lparr>rowKeys = [Some 5], rowAccs = [Some 2]\<rparr>] \<and>
   rc_rows (rows' (snd (projr (startNewGroup (sumConfig 2) 1 (sumState\<lparr>decodedKeys' := [[Some 7, Some 8]]\<rparr>))))) =
     [\<lparr>rowKeys = [Some 8], rowAccs = [None]\<rparr>]"
proof (intro conjI)
  have dk: "\<forall>c\<in>set (decodedKeys' reuseState). 0 < length c"
    by (simp add: reuseState_def sumState_def)
  from startNewGroup_slot[OF reuseState_ok dk]
  show "\<exists>slot st1 row. startNewGroup (sumConfig 2) 0 reuseState = Inr (slot, st1) \<and>
      numGroups' st1 = numGroups' reuseState + 1 \<and>
      groups' st1 ! (numGroups' st1 - 1) = slot \<and>
      rowAt (rows' st1) slot = Inr row \<and>
      rowKeys row = map (\<lambda>c. c ! 0) (decodedKeys' reuseState) \<and>
      rowAccs row = replicate (length (aggregates' (sumConfig 2))) None \<and>
      (\<forall>a<length (rc_rows (rows' reuseState)). Some a \<noteq> slot \<longrightarrow>
          rc_rows (rows' st1) ! a = rc_rows (rows' reuseState) ! a) \<and>
      (if numGroups' reuseState < length (groups' reuseState)
       then slot = groups' reuseState ! numGroups' reuseState \<and> groups' st1 = groups' reuseState \<and>
            length (rc_rows (rows' st1)) = length (rc_rows (rows' reuseState)) \<and>
            st1 = reuseState\<lparr>numGroups' := numGroups' reuseState + 1,
                      rows' := (rows' reuseState)\<lparr>rc_rows := (rc_rows (rows' reuseState))[the slot := row]\<rparr>\<rparr>
       else slot = Some (length (rc_rows (rows' reuseState))) \<and> groups' st1 = groups' reuseState @ [slot] \<and>
            length (rc_rows (rows' st1)) = length (rc_rows (rows' reuseState)) + 1 \<and>
            st1 = reuseState\<lparr>numGroups' := numGroups' reuseState + 1,
                      groups' := groups' reuseState @ [slot],
                      rows' := (rows' reuseState)\<lparr>rc_rows := rc_rows (rows' reuseState) @ [row]\<rparr>\<rparr>)" .
  from startNewGroup_slot[OF reuseState_ok dk]
  obtain slot st1 row where r: "startNewGroup (sumConfig 2) 0 reuseState = Inr (slot, st1)"
    "rowAt (rows' st1) slot = Inr row"
    "rowKeys row = map (\<lambda>c. c ! 0) (decodedKeys' reuseState)"
    "rowAccs row = replicate (length (aggregates' (sumConfig 2))) None"
    "slot = groups' reuseState ! numGroups' reuseState"
    "st1 = reuseState\<lparr>numGroups' := numGroups' reuseState + 1,
                      rows' := (rows' reuseState)\<lparr>rc_rows := (rc_rows (rows' reuseState))[the slot := row]\<rparr>\<rparr>"
    by (auto simp: reuseState_def sumState_def)
  have "row = \<lparr>rowKeys = [Some 7], rowAccs = [None]\<rparr>"
    using r(3,4) by (cases row) (simp add: reuseState_def sumState_def sumConfig_def)
  then show "rc_rows (rows' (snd (projr (startNewGroup (sumConfig 2) 0 reuseState)))) =
     [\<lparr>rowKeys = [Some 7], rowAccs = [None]\<rparr>, \<lparr>rowKeys = [Some 5], rowAccs = [Some 2]\<rparr>]"
    unfolding r(1) using r(5,6) by (simp add: reuseState_def sumState_def)
  have dk2: "\<forall>c\<in>set (decodedKeys' (sumState\<lparr>decodedKeys' := [[Some 7, Some 8]]\<rparr>)). 1 < length c"
    by simp
  from startNewGroup_slot[OF freshState_ok dk2]
  obtain slot st1 row where f: "startNewGroup (sumConfig 2) 1 (sumState\<lparr>decodedKeys' := [[Some 7, Some 8]]\<rparr>) = Inr (slot, st1)"
    "rowKeys row = [Some 8]"
    "rowAccs row = replicate (length (aggregates' (sumConfig 2))) None"
    "rc_rows (rows' st1) = [row]"
    by (auto simp: sumState_def)
  have "row = \<lparr>rowKeys = [Some 8], rowAccs = [None]\<rparr>"
    using f(2,3) by (cases row) (simp add: sumConfig_def)
  then show "rc_rows (rows' (snd (projr (startNewGroup (sumConfig 2) 1 (sumState\<lparr>decodedKeys' := [[Some 7, Some 8]]\<rparr>))))) =
     [\<lparr>rowKeys = [Some 8], rowAccs = [None]\<rparr>]"
    unfolding f(1) using f(4) by simp
qed


section \<open>Unsupported features\<close>

lemma foldE_initializeAggregate_bad:
  "list_ex (\<lambda>a. aggSortingKeys a \<noteq> [] \<or> aggDistinct a) as \<Longrightarrow>
     \<exists>msg. foldE (initializeAggregate create s) as cfg = Inl (Unsupported msg)"
  by (induction as arbitrary: cfg) (auto simp: initializeAggregate_def Let_def)

lemma foldE_initializeAggregate_good:
  "\<not> list_ex (\<lambda>a. aggSortingKeys a \<noteq> [] \<or> aggDistinct a) as \<Longrightarrow>
     \<exists>cfg'. foldE (initializeAggregate create s) as cfg = Inr cfg'"
  by (induction as arbitrary: cfg) (auto simp: initializeAggregate_def Let_def)

text \<open>
  C6. A plan node that asks for an aggregate over sorted inputs, for a distinct
  aggregate or for \<^verbatim>\<open>ignoreNullKeys\<close> makes \<^verbatim>\<open>initialize()\<close> fail with an
  unsupported-feature error, and no operator state exists that could take an
  input; a node that asks for none of the three is initialized, with no pending
  input, no open group and no kernel call made.
\<close>

theorem initialize_unsupported:
  "(requestsUnsupported node \<longrightarrow> (\<exists>msg. initialize create n node = Inl (Unsupported msg))) \<and>
   (\<not> requestsUnsupported node \<longrightarrow>
      (\<exists>cfg st. initialize create n node = Inr (cfg, st) \<and> input' st = None \<and>
         prevInput' st = None \<and> numGroups' st = 0 \<and> calls' st = []))"
proof -
  define cfg0 :: "'a config" where
    "cfg0 = \<lparr>outputBatchSize' = n, step' = nodeStep node,
             groupingKeys' = nodeGroupingKeys node, aggregates' = [],
             args' = [], constantArgs' = [], maskChannels' = []\<rparr>"
  show ?thesis
  proof (cases "list_ex (\<lambda>a. aggSortingKeys a \<noteq> [] \<or> aggDistinct a) (nodeAggregates node)")
    case True
    then obtain msg where
      "foldE (initializeAggregate create (nodeStep node)) (nodeAggregates node) cfg0 = Inl (Unsupported msg)"
      using foldE_initializeAggregate_bad by blast
    then show ?thesis
      using True by (simp add: initialize_def requestsUnsupported_def Let_def cfg0_def)
  next
    case False
    then obtain cfg where
      "foldE (initializeAggregate create (nodeStep node)) (nodeAggregates node) cfg0 = Inr cfg"
      using foldE_initializeAggregate_good by blast
    then show ?thesis
      using False by (simp add: initialize_def requestsUnsupported_def Let_def cfg0_def)
  qed
qed

theorem initialize_unsupported_witness:
  "(\<exists>msg. initialize (\<lambda>name s. sumKernel) 2 (sumNode\<lparr>nodeIgnoreNullKeys := True\<rparr>) = Inl (Unsupported msg)) \<and>
   (\<exists>msg. initialize (\<lambda>name s. sumKernel) 2 (sumNode\<lparr>nodeAggregates := [sumCall\<lparr>aggDistinct := True\<rparr>]\<rparr>) = Inl (Unsupported msg)) \<and>
   (\<exists>msg. initialize (\<lambda>name s. sumKernel) 2 (sumNode\<lparr>nodeAggregates := [sumCall\<lparr>aggSortingKeys := [1]\<rparr>]\<rparr>) = Inl (Unsupported msg)) \<and>
   (\<exists>cfg st. initialize (\<lambda>name s. sumKernel) 2 sumNode = Inr (cfg, st) \<and> input' st = None \<and>
         prevInput' st = None \<and> numGroups' st = 0 \<and> calls' st = [])"
  using initialize_unsupported[of "sumNode\<lparr>nodeIgnoreNullKeys := True\<rparr>" "\<lambda>name s. sumKernel" 2]
    initialize_unsupported[of "sumNode\<lparr>nodeAggregates := [sumCall\<lparr>aggDistinct := True\<rparr>]\<rparr>" "\<lambda>name s. sumKernel" 2]
    initialize_unsupported[of "sumNode\<lparr>nodeAggregates := [sumCall\<lparr>aggSortingKeys := [1]\<rparr>]\<rparr>" "\<lambda>name s. sumKernel" 2]
    initialize_unsupported[of sumNode "\<lambda>name s. sumKernel" 2]
  by (simp add: requestsUnsupported_def sumNode_def sumCall_def)

lemma sumConfig_initialize:
  "initialize (\<lambda>name s. sumKernel) n sumNode = Inr (sumConfig n, sumState)"
  by (simp add: initialize_def initializeAggregate_def sumNode_def sumCall_def sumConfig_def sumState_def
      exprToChannel_def constantOf_def kConstantChannel_def isPartialOutput_def Let_def)

section \<open>Building an output batch\<close>

lemma stdCopy_ok: "out + length src \<le> length dst \<Longrightarrow>
    stdCopy src dst out = Inr (take out dst @ src @ drop (out + length src) dst)"
  by (simp add: stdCopy_def)

lemma rotateGroups_ok: "n \<le> length gs \<Longrightarrow> rotateGroups n gs = Inr (drop n gs @ take n gs)"
  by (simp add: rotateGroups_def stdCopy_def min_def)

lemma rotateGroups_Inr: "rotateGroups n gs = Inr gs' \<Longrightarrow> n \<le> length gs \<and> gs' = drop n gs @ take n gs"
  by (cases "n \<le> length gs") (simp_all add: rotateGroups_ok, simp add: rotateGroups_def)

lemma slot_valid:
  assumes "slotsOk cfg st" and "j < length (groups' st)"
  shows "\<exists>a. groups' st ! j = Some a \<and> a < length (rc_rows (rows' st))"
    and "rowAt (rows' st) (groups' st ! j) = Inr (slotRow st j)"
    and "rowShaped cfg (slotRow st j)"
proof -
  from assms have "validPtr (rows' st) (groups' st ! j)"
    by (simp add: slotsOk_def list_all_length)
  then obtain a where a: "groups' st ! j = Some a" "a < length (rc_rows (rows' st))"
    by (auto simp: validPtr_def split: option.splits)
  then show "\<exists>a. groups' st ! j = Some a \<and> a < length (rc_rows (rows' st))" by blast
  show "rowAt (rows' st) (groups' st ! j) = Inr (slotRow st j)"
    using a by (simp add: rowAt_def slotRow_def)
  show "rowShaped cfg (slotRow st j)"
    using a assms(1) by (simp add: slotsOk_def list_all_length slotRow_def)
qed

lemma extractColumn_ok:
  assumes "slotsOk cfg st" and "n \<le> length (groups' st)" and "k < length (groupingKeys' cfg)"
  shows "extractColumn (rows' st) (groups' st) n k =
         Inr (map (\<lambda>r. rowKeys (slotRow st r) ! k) [0..<n])"
  unfolding extractColumn_def
proof (rule mapE_all)
  fix r assume "r \<in> set [0..<n]"
  then have r: "r < length (groups' st)" using assms(2) by simp
  from slot_valid[OF assms(1) r] assms(3)
  show "bindE (nthE GroupOutOfRange (groups' st) (int r)) (\<lambda>p.
          bindE (rowAt (rows' st) p) (\<lambda>row. nthE ColumnOutOfRange (rowKeys row) (int k))) =
        Inr (rowKeys (slotRow st r) ! k)"
    using r by (simp add: rowShaped_def)
qed

lemma readAccumulator_ok:
  assumes "slotsOk cfg st" and "j < length (groups' st)" and "i < length (aggregates' cfg)"
    and "initializedRow (slotRow st j)"
  shows "readAccumulator (rows' st) (groups' st ! j) i = Inr (the (rowAccs (slotRow st j) ! i))"
proof -
  from slot_valid[OF assms(1,2)] assms(3)
  have "rowAt (rows' st) (groups' st ! j) = Inr (slotRow st j)" "i < length (rowAccs (slotRow st j))"
    by (simp_all add: rowShaped_def)
  moreover from this assms(4) have "rowAccs (slotRow st j) ! i \<noteq> None"
    by (simp add: initializedRow_def list_all_length)
  ultimately show ?thesis
    by (auto simp: readAccumulator_def)
qed

lemma extractWith_ok:
  assumes "slotsOk cfg st" and "n \<le> length (groups' st)" and "i < length (aggregates' cfg)"
    and "\<forall>j<n. initializedRow (slotRow st j)"
  shows "extractWith f i (groups' st) n (rows' st) =
         Inr (map (\<lambda>r. f (the (rowAccs (slotRow st r) ! i))) [0..<n])"
  unfolding extractWith_def
proof (rule mapE_all)
  fix r assume "r \<in> set [0..<n]"
  then have r: "r < length (groups' st)" "initializedRow (slotRow st r)" using assms(2,4) by simp_all
  from readAccumulator_ok[OF assms(1) r(1) assms(3) r(2)]
  show "bindE (nthE GroupOutOfRange (groups' st) (int r)) (\<lambda>p.
          bindE (readAccumulator (rows' st) p i) (\<lambda>a. Inr (f a))) =
        Inr (f (the (rowAccs (slotRow st r) ! i)))"
    using r by simp
qed

lemma extractAggregates_ok:
  assumes "slotsOk cfg st" and "n \<le> length (groups' st)" and "\<forall>i\<in>set is. i < length (aggregates' cfg)"
    and "\<forall>j<n. initializedRow (slotRow st j)"
  shows "foldE (extractAggregate cfg n) is (cols, st\<lparr>calls' := cs\<rparr>) =
         Inr (cols @ map (\<lambda>i. map (\<lambda>r. extractOf cfg i (the (rowAccs (slotRow st r) ! i))) [0..<n]) is,
              st\<lparr>calls' := cs @ map (extractCall cfg (groups' st) n) is\<rparr>)"
  using assms(3)
proof (induction "is" arbitrary: cols cs)
  case Nil
  then show ?case by simp
next
  case (Cons i "is")
  then have i: "i < length (aggregates' cfg)" by simp
  have "extractAggregate cfg n i (cols, st\<lparr>calls' := cs\<rparr>) =
      Inr (cols @ [map (\<lambda>r. extractOf cfg i (the (rowAccs (slotRow st r) ! i))) [0..<n]],
           st\<lparr>calls' := cs @ [extractCall cfg (groups' st) n i]\<rparr>)"
    using i extractWith_ok[OF assms(1,2) i assms(4)]
    by (simp add: extractAggregate_def extractOf_def extractCall_def extractValues_def extractAccumulators_def)
  then show ?case
    using Cons by simp
qed

lemma createOutput_ok:
  assumes "slotsOk cfg st" and "n \<le> length (groups' st)" and "\<forall>j<n. initializedRow (slotRow st j)"
  shows "createOutput cfg n st =
         Inr (outputOf cfg st n,
              st\<lparr>calls' := calls' st @ map (extractCall cfg (groups' st) n) [0..<length (aggregates' cfg)]\<rparr>)"
proof -
  have k: "mapE (\<lambda>i. extractColumn (rows' st) (groups' st) n i) [0..<length (groupingKeys' cfg)] =
      Inr (map (\<lambda>k. map (\<lambda>r. rowKeys (slotRow st r) ! k) [0..<n]) [0..<length (groupingKeys' cfg)])"
    by (rule mapE_all) (simp add: extractColumn_ok[OF assms(1,2)])
  have "foldE (extractAggregate cfg n) [0..<length (aggregates' cfg)] ([], st\<lparr>calls' := calls' st\<rparr>) =
      Inr ([] @ map (\<lambda>i. map (\<lambda>r. extractOf cfg i (the (rowAccs (slotRow st r) ! i))) [0..<n])
              [0..<length (aggregates' cfg)],
           st\<lparr>calls' := calls' st @ map (extractCall cfg (groups' st) n) [0..<length (aggregates' cfg)]\<rparr>)"
    by (rule extractAggregates_ok[OF assms(1,2) _ assms(3)]) simp
  then show ?thesis
    using k by (simp add: createOutput_def outputOf_def)
qed

text \<open>
  C9. For a well-formed pool whose first \<open>n\<close> slots are initialized,
  \<^verbatim>\<open>createOutput(n)\<close> returns a batch of \<open>n\<close> rows with one column per grouping key
  followed by one column per aggregate, all of \<open>n\<close> rows; row \<open>r\<close> holds, in the
  key columns, the keys of the row that slot \<open>groups'[r]\<close> points to, and in the
  aggregate columns, in the order of the aggregates, the results read out of that
  row's accumulators.
\<close>

theorem createOutput_layout:
  assumes "slotsOk cfg st" and "n \<le> length (groups' st)" and "\<forall>j<n. initializedRow (slotRow st j)"
  shows "\<exists>out st1. createOutput cfg n st = Inr (out, st1) \<and>
      rv_size out = n \<and>
      length (rv_children out) = length (groupingKeys' cfg) + length (aggregates' cfg) \<and>
      (\<forall>c\<in>set (rv_children out). length c = n) \<and>
      (\<forall>r<n. \<exists>row. rowAt (rows' st) (groups' st ! r) = Inr row \<and>
         (\<forall>k<length (groupingKeys' cfg). rv_children out ! k ! r = rowKeys row ! k) \<and>
         (\<forall>i<length (aggregates' cfg). \<exists>a. rowAccs row ! i = Some a \<and>
            rv_children out ! (length (groupingKeys' cfg) + i) ! r = extractOf cfg i a))"
proof -
  let ?out = "outputOf cfg st n"
  have rows: "\<exists>row. rowAt (rows' st) (groups' st ! r) = Inr row \<and>
         (\<forall>k<length (groupingKeys' cfg). rv_children ?out ! k ! r = rowKeys row ! k) \<and>
         (\<forall>i<length (aggregates' cfg). \<exists>a. rowAccs row ! i = Some a \<and>
            rv_children ?out ! (length (groupingKeys' cfg) + i) ! r = extractOf cfg i a)" if r: "r < n" for r
  proof -
    from r assms(2) have rl: "r < length (groups' st)" by simp
    have shaped: "rowShaped cfg (slotRow st r)" and at: "rowAt (rows' st) (groups' st ! r) = Inr (slotRow st r)"
      using slot_valid[OF assms(1) rl] by simp_all
    have init: "\<exists>a. rowAccs (slotRow st r) ! i = Some a" if "i < length (aggregates' cfg)" for i
      using assms(3) r that shaped by (auto simp: initializedRow_def list_all_length rowShaped_def)
    have keys: "rv_children ?out ! k ! r = rowKeys (slotRow st r) ! k" if "k < length (groupingKeys' cfg)" for k
      using that r by (simp add: outputOf_def nth_append)
    have aggs: "rv_children ?out ! (length (groupingKeys' cfg) + i) ! r =
        extractOf cfg i (the (rowAccs (slotRow st r) ! i))" if "i < length (aggregates' cfg)" for i
      using that r by (simp add: outputOf_def nth_append)
    show ?thesis
      using at keys aggs init by (intro exI[of _ "slotRow st r"]) fastforce
  qed
  have "(\<forall>c\<in>set (rv_children ?out). length c = n)"
    by (auto simp: outputOf_def)
  then show ?thesis
    using createOutput_ok[OF assms] rows by (simp add: outputOf_def)
qed


theorem createOutput_layout_witness:
  "\<exists>out st1. createOutput (sumConfig 2) 2 reuseState = Inr (out, st1) \<and>
      rv_size out = 2 \<and>
      length (rv_children out) = length (groupingKeys' (sumConfig 2)) + length (aggregates' (sumConfig 2)) \<and>
      (\<forall>c\<in>set (rv_children out). length c = 2) \<and>
      (\<forall>r<2. \<exists>row. rowAt (rows' reuseState) (groups' reuseState ! r) = Inr row \<and>
         (\<forall>k<length (groupingKeys' (sumConfig 2)). rv_children out ! k ! r = rowKeys row ! k) \<and>
         (\<forall>i<length (aggregates' (sumConfig 2)). \<exists>a. rowAccs row ! i = Some a \<and>
            rv_children out ! (length (groupingKeys' (sumConfig 2)) + i) ! r = extractOf (sumConfig 2) i a))"
proof (rule createOutput_layout[OF reuseState_ok])
  show "2 \<le> length (groups' reuseState)"
    by (simp add: reuseState_def)
  show "\<forall>j<2. initializedRow (slotRow reuseState j)"
    by (simp add: reuseState_def sumState_def slotRow_def initializedRow_def less_2_cases_iff)
qed

lemma createOutput_Inr:
  assumes "createOutput cfg n st = Inr (out, st1)"
  shows "rv_size out = n"
  using assms by (auto simp: createOutput_def bindE_eq_Inr)

section \<open>Emitting a batch and rotating the slots\<close>

text \<open>
  C4. When more than \<^verbatim>\<open>outputBatchSize_\<close> groups are open, with \<open>n\<close> the batch size,
  the emission returns a batch and leaves in \<open>groups'\<close> a permutation of the
  pointers it held: the pointers of positions \<open>[n, numGroups')\<close> are at positions
  \<open>[0, numGroups' - n)\<close>, the \<open>n\<close> pointers of the batch are the last \<open>n\<close> entries,
  beyond the new \<open>numGroups'\<close>, which is the old one less \<open>n\<close> and still positive;
  the last open group is again the last live entry.
\<close>

theorem emitBatch_rotation:
  assumes "slotsOk cfg st" and "\<forall>j<outputBatchSize' cfg. initializedRow (slotRow st j)"
    and "numGroups' st > outputBatchSize' cfg"
  shows "\<exists>batch st1. emitBatch cfg st = Inr (Some batch, st1) \<and>
      mset (groups' st1) = mset (groups' st) \<and>
      numGroups' st1 = numGroups' st - outputBatchSize' cfg \<and>
      (\<forall>j<numGroups' st - outputBatchSize' cfg. groups' st1 ! j = groups' st ! (outputBatchSize' cfg + j)) \<and>
      (\<forall>j<outputBatchSize' cfg.
          groups' st1 ! (length (groups' st) - outputBatchSize' cfg + j) = groups' st ! j) \<and>
      numGroups' st1 \<le> length (groups' st) - outputBatchSize' cfg \<and>
      0 < numGroups' st1 \<and>
      groups' st1 ! (numGroups' st1 - 1) = groups' st ! (numGroups' st - 1)"
proof -
  let ?n = "outputBatchSize' cfg"
  let ?gs = "groups' st"
  have le: "?n \<le> length ?gs" "numGroups' st \<le> length ?gs"
    using assms(1,3) by (simp_all add: slotsOk_def)
  let ?st1 = "st\<lparr>calls' := calls' st @ map (extractCall cfg ?gs ?n) [0..<length (aggregates' cfg)],
                  groups' := drop ?n ?gs @ take ?n ?gs,
                  numGroups' := numGroups' st - ?n\<rparr>"
  have run: "emitBatch cfg st = Inr (Some (outputOf cfg st ?n), ?st1)"
    using assms(3) createOutput_ok[OF assms(1) le(1) assms(2)] rotateGroups_ok[OF le(1)]
    by (simp add: emitBatch_def)
  have perm: "mset (drop ?n ?gs @ take ?n ?gs) = mset ?gs"
  proof -
    have "mset ?gs = mset (take ?n ?gs) + mset (drop ?n ?gs)"
      by (metis append_take_drop_id mset_append)
    then show ?thesis by (simp add: add.commute)
  qed
  have front: "(drop ?n ?gs @ take ?n ?gs) ! j = ?gs ! (?n + j)" if "j < numGroups' st - ?n" for j
  proof -
    from that le have "j < length ?gs - ?n" by linarith
    then show ?thesis using le by (simp add: nth_append)
  qed
  have rear: "(drop ?n ?gs @ take ?n ?gs) ! (length ?gs - ?n + j) = ?gs ! j" if "j < ?n" for j
  proof -
    have "length (drop ?n ?gs) = length ?gs - ?n" by simp
    then have "(drop ?n ?gs @ take ?n ?gs) ! (length ?gs - ?n + j) = take ?n ?gs ! j"
      by (metis nth_append_length_plus)
    then show ?thesis using that by simp
  qed
  have lastg: "(drop ?n ?gs @ take ?n ?gs) ! (numGroups' st - ?n - 1) = ?gs ! (numGroups' st - 1)"
    using front[of "numGroups' st - ?n - 1"] assms(3) by simp
  show ?thesis
    using run perm front rear lastg assms(3) le by simp
qed

lemma twoGroups_ok: "slotsOk (sumConfig 1) twoGroups"
  by (simp add: slotsOk_def sumConfig_def sumState_def reuseState_def twoGroups_def validPtr_def rowShaped_def)

theorem emitBatch_rotation_witness:
  "\<exists>batch st1. emitBatch (sumConfig 1) twoGroups = Inr (Some batch, st1) \<and>
      mset (groups' st1) = mset (groups' twoGroups) \<and>
      numGroups' st1 = numGroups' twoGroups - outputBatchSize' (sumConfig 1) \<and>
      (\<forall>j<numGroups' twoGroups - outputBatchSize' (sumConfig 1).
          groups' st1 ! j = groups' twoGroups ! (outputBatchSize' (sumConfig 1) + j)) \<and>
      (\<forall>j<outputBatchSize' (sumConfig 1).
          groups' st1 ! (length (groups' twoGroups) - outputBatchSize' (sumConfig 1) + j) = groups' twoGroups ! j) \<and>
      numGroups' st1 \<le> length (groups' twoGroups) - outputBatchSize' (sumConfig 1) \<and>
      0 < numGroups' st1 \<and>
      groups' st1 ! (numGroups' st1 - 1) = groups' twoGroups ! (numGroups' twoGroups - 1)"
proof (rule emitBatch_rotation[OF twoGroups_ok])
  show "\<forall>j<outputBatchSize' (sumConfig 1). initializedRow (slotRow twoGroups j)"
    by (simp add: sumConfig_def twoGroups_def reuseState_def sumState_def slotRow_def initializedRow_def)
  show "outputBatchSize' (sumConfig 1) < numGroups' twoGroups"
    by (simp add: sumConfig_def twoGroups_def reuseState_def sumState_def)
qed

section \<open>Batch sizes\<close>

text \<open>The definitions that evaluate the operator on a concrete input.\<close>

lemmas evalDefs =
  bindE_def nthE_def assignAt_def resize_def childAt_def equalValueAt_def
  blankRow_def rowAt_def putRow_def newRow_def initializeRow_def store_def extractColumn_def
  readAccumulator_def writeAccumulator_def valueAt_def initializeNewGroups_def updateGroups_def
  addRawInput_def addIntermediateResults_def extractWith_def extractValues_def extractAccumulators_def
  masksAddInput_def activeRows_def isRawInput_def isPartialOutput_def kConstantChannel_def
  storeKeys_def startNewGroup_def extractAggregate_def createOutput_def decodeKeys_def assignGroups_def
  getSelectivityVector_def aggregateArgs_def evaluateAggregate_def evaluateAggregates_def
  addInput_def noMoreInput_def isFinished_def stdCopy_def rotateGroups_def initializeAggregateGroups_def
  processInput_def emitBatch_def getOutput_def drive_def Let_def upt_rec
  sumKernel_def sumConfig_def sumState_def batchOf_def

text \<open>
  C2. A batch that \<^verbatim>\<open>getOutput()\<close> returns while an input is pending has exactly
  \<^verbatim>\<open>outputBatchSize_\<close> rows, and more groups than that were open once the input had
  been processed. With no pending input, \<^verbatim>\<open>noMoreInput_\<close> set and some group
  open, \<^verbatim>\<open>getOutput()\<close> returns one batch of exactly \<open>numGroups'\<close> rows, whatever
  the batch size, and leaves no group open.
\<close>

theorem getOutput_batch_sizes:
  "(\<forall>inp batch st1. input' st = Some inp \<and> getOutput cfg st = Inr (Some batch, st1) \<longrightarrow>
       rv_size batch = outputBatchSize' cfg \<and>
       (\<exists>st2. processInput cfg inp st = Inr st2 \<and> outputBatchSize' cfg < numGroups' st2)) \<and>
   (slotsOk cfg st \<and> list_all initializedRow (liveRows st) \<and>
    input' st = None \<and> noMoreInput' st \<and> 0 < numGroups' st \<longrightarrow>
       (\<exists>batch st1. getOutput cfg st = Inr (Some batch, st1) \<and>
          rv_size batch = numGroups' st \<and> numGroups' st1 = 0))"
proof (intro conjI allI impI)
  fix inp batch st1
  assume a: "input' st = Some inp \<and> getOutput cfg st = Inr (Some batch, st1)"
  then obtain st2 st3 where p: "processInput cfg inp st = Inr st2"
    and e: "emitBatch cfg st2 = Inr (Some batch, st3)"
    by (auto simp: getOutput_def bindE_eq_Inr)
  from e have gt: "outputBatchSize' cfg < numGroups' st2"
    by (auto simp: emitBatch_def split: if_splits)
  with e obtain st4 where "createOutput cfg (outputBatchSize' cfg) st2 = Inr (batch, st4)"
    by (auto simp: emitBatch_def bindE_eq_Inr)
  then have "rv_size batch = outputBatchSize' cfg"
    by (rule createOutput_Inr)
  then show "rv_size batch = outputBatchSize' cfg" .
  show "\<exists>st2. processInput cfg inp st = Inr st2 \<and> outputBatchSize' cfg < numGroups' st2"
    using p gt by blast
next
  assume a: "slotsOk cfg st \<and> list_all initializedRow (liveRows st) \<and>
    input' st = None \<and> noMoreInput' st \<and> 0 < numGroups' st"
  then have le: "numGroups' st \<le> length (groups' st)"
    by (simp add: slotsOk_def)
  have init: "\<forall>j<numGroups' st. initializedRow (slotRow st j)"
    using a by (simp add: liveRows_def list_all_length)
  from createOutput_ok[OF _ le init] a
  show "\<exists>batch st1. getOutput cfg st = Inr (Some batch, st1) \<and>
          rv_size batch = numGroups' st \<and> numGroups' st1 = 0"
    by (simp add: getOutput_def outputOf_def)
qed

theorem getOutput_batch_sizes_witness:
  "(rv_size \<lparr>rv_size = 1, rv_children = [[Some 1], [Some 3]]\<rparr> = outputBatchSize' (sumConfig 1) \<and>
    (\<exists>st2. processInput (sumConfig 1) (batchOf [1, 1, 2, 2] [1, 2, 3, 4])
              (addInput (batchOf [1, 1, 2, 2] [1, 2, 3, 4]) sumState) = Inr st2 \<and>
            outputBatchSize' (sumConfig 1) < numGroups' st2)) \<and>
   (\<exists>batch st1. getOutput (sumConfig 1) (noMoreInput twoGroups) = Inr (Some batch, st1) \<and>
          rv_size batch = numGroups' (noMoreInput twoGroups) \<and> numGroups' st1 = 0)"
proof -
  let ?b = "batchOf [1, 1, 2, 2] [1, 2, 3, 4]"
  have i: "input' (addInput ?b sumState) = Some ?b"
    by (simp add: addInput_def)
  have "\<exists>st1. getOutput (sumConfig 1) (addInput ?b sumState) =
      Inr (Some \<lparr>rv_size = 1, rv_children = [[Some 1], [Some 3]]\<rparr>, st1)"
    by (simp add: evalDefs)
  then obtain st1 where g: "getOutput (sumConfig 1) (addInput ?b sumState) =
      Inr (Some \<lparr>rv_size = 1, rv_children = [[Some 1], [Some 3]]\<rparr>, st1)"
    by blast
  have f: "slotsOk (sumConfig 1) (noMoreInput twoGroups) \<and>
      list_all initializedRow (liveRows (noMoreInput twoGroups)) \<and>
      input' (noMoreInput twoGroups) = None \<and> noMoreInput' (noMoreInput twoGroups) \<and>
      0 < numGroups' (noMoreInput twoGroups)"
    by (simp add: slotsOk_def sumConfig_def sumState_def reuseState_def twoGroups_def validPtr_def
        rowShaped_def noMoreInput_def liveRows_def slotRow_def initializedRow_def upt_rec)
  show ?thesis
    using getOutput_batch_sizes[of "addInput ?b sumState" "sumConfig 1"]
      getOutput_batch_sizes[of "noMoreInput twoGroups" "sumConfig 1"] i g f
    by blast
qed

section \<open>Runs of equal keys\<close>

lemma runs_Nil_iff [simp]: "runs key xs = [] \<longleftrightarrow> xs = []"
  by (cases xs) simp_all

lemma concat_runs [simp]: "concat (runs key xs) = xs"
  by (induction key xs rule: runs.induct) simp_all

lemma runs_same_key:
  "run \<in> set (runs key xs) \<Longrightarrow> run \<noteq> [] \<and> (\<forall>y\<in>set run. key y = key (hd run))"
proof (induction key xs rule: runs.induct)
  case (1 key)
  then show ?case by simp
next
  case (2 key x xs)
  from "2.prems" have "run = x # takeWhile (\<lambda>y. key y = key x) xs \<or>
      run \<in> set (runs key (dropWhile (\<lambda>y. key y = key x) xs))"
    by simp
  then show ?case
  proof
    assume r: "run = x # takeWhile (\<lambda>y. key y = key x) xs"
    have "\<forall>y\<in>set (x # takeWhile (\<lambda>y. key y = key x) xs). key y = key x"
      by (auto dest: set_takeWhileD)
    then show ?thesis
      unfolding r by (metis list.sel(1) list.distinct(1))
  next
    assume "run \<in> set (runs key (dropWhile (\<lambda>y. key y = key x) xs))"
    then show ?thesis
      by (rule "2.IH")
  qed
qed

lemma runs_single_key:
  "\<forall>y\<in>set xs. key y = key x \<Longrightarrow> runs key (x # xs) = [x # xs]"
  by simp

lemma runs_snoc:
  "runs key (xs @ [y]) =
     (if xs \<noteq> [] \<and> key (last xs) = key y
      then butlast (runs key xs) @ [last (runs key xs) @ [y]]
      else runs key xs @ [[y]])"
proof (induction key xs rule: runs.induct)
  case (1 key)
  then show ?case by simp
next
  case (2 key x xs)
  let ?P = "\<lambda>z. key z = key x"
  have unfold: "runs key ((x # xs) @ [y]) =
      (x # takeWhile ?P (xs @ [y])) # runs key (dropWhile ?P (xs @ [y]))"
    by simp
  show ?case
  proof (cases "\<forall>z\<in>set xs. ?P z")
    case True
    have r: "runs key (x # xs) = [x # xs]"
      using True by simp
    have lk: "key (last (x # xs)) = key x"
      using True by (cases "xs = []") simp_all
    show ?thesis
    proof (cases "key y = key x")
      case ky: True
      have "takeWhile ?P (xs @ [y]) = xs @ [y]" "dropWhile ?P (xs @ [y]) = []"
        using True ky by simp_all
      then have "runs key ((x # xs) @ [y]) = [x # xs @ [y]]"
        unfolding unfold by simp
      moreover have "key (last (x # xs)) = key y"
        using lk ky by simp
      ultimately show ?thesis
        unfolding r by simp
    next
      case ky: False
      have "takeWhile ?P (xs @ [y]) = xs" "dropWhile ?P (xs @ [y]) = [y]"
        using True ky by (simp_all add: takeWhile_append2 dropWhile_append2)
      then have "runs key ((x # xs) @ [y]) = [x # xs, [y]]"
        unfolding unfold by simp
      moreover have "key (last (x # xs)) \<noteq> key y"
        using lk ky by simp
      ultimately show ?thesis
        unfolding r by simp
    qed
  next
    case False
    let ?tw = "takeWhile ?P xs"
    let ?dw = "dropWhile ?P xs"
    have dw: "?dw \<noteq> []"
      using False by simp
    from False obtain z where z: "z \<in> set xs" "\<not> ?P z"
      by blast
    have tw: "takeWhile ?P (xs @ [y]) = ?tw" "dropWhile ?P (xs @ [y]) = ?dw @ [y]"
      using z by (rule takeWhile_append1, rule dropWhile_append1)
    have l: "runs key ((x # xs) @ [y]) = (x # ?tw) # runs key (?dw @ [y])"
      unfolding unfold tw ..
    have r: "runs key (x # xs) = (x # ?tw) # runs key ?dw"
      by simp
    have ne: "runs key ?dw \<noteq> []"
      using dw by simp
    have "last xs = last ?dw"
      using dw by (metis last_appendR takeWhile_dropWhile_id)
    then have la: "last (x # xs) = last ?dw"
      using dw by (cases "xs = []") simp_all
    have ih: "runs key (?dw @ [y]) =
        (if ?dw \<noteq> [] \<and> key (last ?dw) = key y
         then butlast (runs key ?dw) @ [last (runs key ?dw) @ [y]]
         else runs key ?dw @ [[y]])"
      by (rule "2.IH")
    show ?thesis
    proof (cases "key (last ?dw) = key y")
      case True
      then show ?thesis
        unfolding l r la ih using dw ne by simp
    next
      case False
      then show ?thesis
        unfolding l r la ih using dw ne by simp
    qed
  qed
qed

section \<open>Kernel calls on the pool\<close>

lemma slotsOk_pool:
  "slotsOk cfg st \<longleftrightarrow>
     poolOk cfg (groups' st) (rows' st) \<and> numGroups' st \<le> length (groups' st) \<and>
     length (decodedKeys' st) = length (groupingKeys' cfg)"
  by (auto simp: slotsOk_def poolOk_def)

lemma pool_slot:
  assumes "poolOk cfg gs rc" and "j < length gs"
  obtains a where "gs ! j = Some a" and "a < length (rc_rows rc)" and "rowShaped cfg (rc_rows rc ! a)"
proof -
  from assms have "validPtr rc (gs ! j)"
    by (simp add: poolOk_def list_all_length)
  then obtain a where a: "gs ! j = Some a" "a < length (rc_rows rc)"
    by (auto simp: validPtr_def split: option.splits)
  moreover from a assms(1) have "rowShaped cfg (rc_rows rc ! a)"
    by (simp add: poolOk_def list_all_length)
  ultimately show ?thesis
    using that by blast
qed

lemma validPtr_length:
  "length (rc_rows rc1) = length (rc_rows rc) \<Longrightarrow> validPtr rc1 = validPtr rc"
  by (rule ext) (simp add: validPtr_def split: option.splits)

lemma pool_update:
  assumes "poolOk cfg gs rc" and "j < length gs" and "gs ! j = Some a" and "rowShaped cfg row"
  shows "poolOk cfg gs (rc\<lparr>rc_rows := (rc_rows rc)[a := row]\<rparr>)"
proof -
  have "set ((rc_rows rc)[a := row]) \<subseteq> insert row (set (rc_rows rc))"
    by (rule set_update_subset_insert)
  then have "list_all (rowShaped cfg) ((rc_rows rc)[a := row])"
    using assms(1,4) by (auto simp: poolOk_def list_all_iff)
  moreover have "validPtr (rc\<lparr>rc_rows := (rc_rows rc)[a := row]\<rparr>) = validPtr rc"
    by (rule validPtr_length) simp
  ultimately show ?thesis
    using assms(1) by (simp add: poolOk_def)
qed

lemma pool_other:
  assumes "poolOk cfg gs rc" and "j < length gs" and "gs ! j = Some a"
    and "j' < length gs" and "j' \<noteq> j"
  shows "the (gs ! j') \<noteq> a"
proof -
  from assms(1) have "distinct gs" by (simp add: poolOk_def)
  with assms(2,4,5) have "gs ! j' \<noteq> gs ! j"
    by (simp add: nth_eq_iff_index_eq)
  moreover obtain a' where "gs ! j' = Some a'"
    using pool_slot[OF assms(1,4)] by blast
  ultimately show ?thesis
    using assms(3) by simp
qed

lemma write_ok:
  assumes "poolOk cfg gs rc" and "j < length gs" and "i < length (aggregates' cfg)"
  shows "\<exists>rc1. writeAccumulator rc (gs ! j) i v = Inr rc1 \<and> poolOk cfg gs rc1 \<and>
      keysT gs rc1 = keysT gs rc \<and>
      accsT i gs rc1 = (accsT i gs rc)[j := Some v] \<and>
      (\<forall>i'. i' \<noteq> i \<longrightarrow> accsT i' gs rc1 = accsT i' gs rc)"
proof -
  from pool_slot[OF assms(1,2)] obtain a where a: "gs ! j = Some a" "a < length (rc_rows rc)"
    "rowShaped cfg (rc_rows rc ! a)" by blast
  let ?row = "(rc_rows rc ! a)\<lparr>rowAccs := (rowAccs (rc_rows rc ! a))[i := Some v]\<rparr>"
  let ?rc = "rc\<lparr>rc_rows := (rc_rows rc)[a := ?row]\<rparr>"
  have il: "i < length (rowAccs (rc_rows rc ! a))"
    using a(3) assms(3) by (simp add: rowShaped_def)
  have w: "writeAccumulator rc (gs ! j) i v = Inr ?rc"
    using a il by (simp add: writeAccumulator_def rowAt_def putRow_def)
  have shaped: "rowShaped cfg ?row"
    using a(3) by (simp add: rowShaped_def)
  have pool: "poolOk cfg gs ?rc"
    by (rule pool_update[OF assms(1,2) a(1) shaped])
  have other: "rc_rows ?rc ! the (gs ! j') = rc_rows rc ! the (gs ! j')" if "j' < length gs" "j' \<noteq> j" for j'
    using pool_other[OF assms(1,2) a(1) that] by simp
  have keys: "keysT gs ?rc = keysT gs rc"
  proof (rule nth_equalityI)
    show "length (keysT gs ?rc) = length (keysT gs rc)" by (simp add: keysT_def)
    fix j' assume "j' < length (keysT gs ?rc)"
    then have j': "j' < length gs" by (simp add: keysT_def)
    show "keysT gs ?rc ! j' = keysT gs rc ! j'"
    proof (cases "j' = j")
      case True
      then show ?thesis using a j' by (simp add: keysT_def)
    next
      case False
      then show ?thesis using other[OF j' False] j' by (simp add: keysT_def)
    qed
  qed
  have col: "accsT i gs ?rc = (accsT i gs rc)[j := Some v]"
  proof (rule nth_equalityI)
    show "length (accsT i gs ?rc) = length ((accsT i gs rc)[j := Some v])" by (simp add: accsT_def)
    fix j' assume "j' < length (accsT i gs ?rc)"
    then have j': "j' < length gs" by (simp add: accsT_def)
    show "accsT i gs ?rc ! j' = (accsT i gs rc)[j := Some v] ! j'"
    proof (cases "j' = j")
      case True
      then show ?thesis using a j' il by (simp add: accsT_def)
    next
      case False
      then show ?thesis using other[OF j' False] j' by (simp add: accsT_def)
    qed
  qed
  have others: "accsT i' gs ?rc = accsT i' gs rc" if "i' \<noteq> i" for i'
  proof (rule nth_equalityI)
    show "length (accsT i' gs ?rc) = length (accsT i' gs rc)" by (simp add: accsT_def)
    fix j' assume "j' < length (accsT i' gs ?rc)"
    then have j': "j' < length gs" by (simp add: accsT_def)
    show "accsT i' gs ?rc ! j' = accsT i' gs rc ! j'"
    proof (cases "j' = j")
      case True
      then show ?thesis using a j' that by (simp add: accsT_def)
    next
      case False
      then show ?thesis using other[OF j' False] j' by (simp add: accsT_def)
    qed
  qed
  show ?thesis
    using w pool keys col others by blast
qed

lemma read_ok:
  assumes "poolOk cfg gs rc" and "j < length gs" and "i < length (aggregates' cfg)"
  shows "readAccumulator rc (gs ! j) i =
     (case accsT i gs rc ! j of None \<Rightarrow> Inl UninitializedAccumulator | Some a \<Rightarrow> Inr a)"
proof -
  from pool_slot[OF assms(1,2)] obtain a where a: "gs ! j = Some a" "a < length (rc_rows rc)"
    "rowShaped cfg (rc_rows rc ! a)" by blast
  have il: "i < length (rowAccs (rc_rows rc ! a))"
    using a(3) assms(3) by (simp add: rowShaped_def)
  show ?thesis
    using a il assms(2) by (simp add: readAccumulator_def rowAt_def accsT_def)
qed

lemma length_overwrite [simp]: "length (overwrite a b v xs) = length xs"
  by (simp add: overwrite_def)

lemma nth_overwrite:
  "j < length xs \<Longrightarrow> overwrite a b v xs ! j = (if a \<le> j \<and> j < b then v else xs ! j)"
  by (simp add: overwrite_def)

lemma overwrite_empty: "overwrite a a v xs = xs"
  by (rule nth_equalityI) (auto simp: nth_overwrite)

lemma overwrite_step:
  assumes that: "a \<le> b"
  shows "(overwrite a b v xs)[b := v] = overwrite a (Suc b) v xs"
proof (rule nth_equalityI)
  show "length ((overwrite a b v xs)[b := v]) = length (overwrite a (Suc b) v xs)"
    by simp
  fix j assume "j < length ((overwrite a b v xs)[b := v])"
  then have j: "j < length xs" by simp
  show "(overwrite a b v xs)[b := v] ! j = overwrite a (Suc b) v xs ! j"
  proof (cases "j = b")
    case True
    then show ?thesis using j that by (simp add: nth_overwrite)
  next
    case False
    then show ?thesis using j by (auto simp: nth_overwrite)
  qed
qed

lemma initializeNewGroups_ok:
  assumes "poolOk cfg gs rc" and "i < length (aggregates' cfg)" and "a \<le> b" and "b \<le> length gs"
  shows "\<exists>rc1. initializeNewGroups agg i gs [a..<b] rc = Inr rc1 \<and> poolOk cfg gs rc1 \<and>
      keysT gs rc1 = keysT gs rc \<and>
      accsT i gs rc1 = overwrite a b (Some (initialValue agg)) (accsT i gs rc) \<and>
      (\<forall>i'. i' \<noteq> i \<longrightarrow> accsT i' gs rc1 = accsT i' gs rc)"
  using assms(3,4)
proof (induction b rule: dec_induct)
  case base
  then show ?case
    using assms(1) by (simp add: initializeNewGroups_def overwrite_empty)
next
  case (step n)
  then obtain rc1 where rc1: "initializeNewGroups agg i gs [a..<n] rc = Inr rc1" "poolOk cfg gs rc1"
    "keysT gs rc1 = keysT gs rc"
    "accsT i gs rc1 = overwrite a n (Some (initialValue agg)) (accsT i gs rc)"
    "\<forall>i'. i' \<noteq> i \<longrightarrow> accsT i' gs rc1 = accsT i' gs rc"
    by auto
  from step have n: "n < length gs" by simp
  from write_ok[OF rc1(2) n assms(2), of "initialValue agg"]
  obtain rc2 where rc2: "writeAccumulator rc1 (gs ! n) i (initialValue agg) = Inr rc2" "poolOk cfg gs rc2"
    "keysT gs rc2 = keysT gs rc1"
    "accsT i gs rc2 = (accsT i gs rc1)[n := Some (initialValue agg)]"
    "\<forall>i'. i' \<noteq> i \<longrightarrow> accsT i' gs rc2 = accsT i' gs rc1"
    by blast
  have "initializeNewGroups agg i gs [a..<Suc n] rc = Inr rc2"
    using rc1(1) rc2(1) step(1) n by (simp add: initializeNewGroups_def foldE_append)
  moreover have "accsT i gs rc2 = overwrite a (Suc n) (Some (initialValue agg)) (accsT i gs rc)"
    using rc2(4) rc1(4) overwrite_step[OF step(1)] by simp
  ultimately show ?case
    using rc2 rc1 by auto
qed

lemma updateRows_ok:
  assumes "poolOk cfg gs rc" and "i < length (aggregates' cfg)"
    and "\<forall>r\<in>set rs. r < length ig \<and> slots ! r < length gs \<and> ig ! r = gs ! (slots ! r) \<and>
           mapE (\<lambda>v. valueAt v r) args = Inr (vals r)"
    and "\<forall>r\<in>set rs. accsT i gs rc ! (slots ! r) \<noteq> None"
  shows "\<exists>rc1. foldE (\<lambda>r rc. if sel ! r then
                bindE (nthE GroupOutOfRange ig (int r)) (\<lambda>p.
                bindE (readAccumulator rc p i) (\<lambda>a.
                bindE (mapE (\<lambda>v. valueAt v r) args) (\<lambda>vs.
                  writeAccumulator rc p i (upd a vs))))
              else Inr rc) rs rc = Inr rc1 \<and> poolOk cfg gs rc1 \<and>
      keysT gs rc1 = keysT gs rc \<and>
      accsT i gs rc1 =
        foldl (\<lambda>A r. if sel ! r then A[slots ! r := map_option (\<lambda>a. upd a (vals r)) (A ! (slots ! r))] else A)
          (accsT i gs rc) rs \<and>
      (\<forall>i'. i' \<noteq> i \<longrightarrow> accsT i' gs rc1 = accsT i' gs rc)"
  using assms(1,3,4)
proof (induction rs arbitrary: rc)
  case Nil
  then show ?case by simp
next
  case (Cons r rs)
  let ?s = "slots ! r"
  have r: "r < length ig" "?s < length gs" "ig ! r = gs ! ?s" "mapE (\<lambda>v. valueAt v r) args = Inr (vals r)"
    using Cons.prems(2) by simp_all
  show ?case
  proof (cases "sel ! r")
    case False
    from Cons.IH[OF Cons.prems(1)] Cons.prems(2,3) False
    show ?thesis by simp
  next
    case True
    from Cons.prems(3) obtain a where a: "accsT i gs rc ! ?s = Some a"
      by auto
    have rd: "readAccumulator rc (gs ! ?s) i = Inr a"
      using read_ok[OF Cons.prems(1) r(2) assms(2)] a by simp
    from write_ok[OF Cons.prems(1) r(2) assms(2), of "upd a (vals r)"]
    obtain rc1 where rc1: "writeAccumulator rc (gs ! ?s) i (upd a (vals r)) = Inr rc1" "poolOk cfg gs rc1"
      "keysT gs rc1 = keysT gs rc"
      "accsT i gs rc1 = (accsT i gs rc)[?s := Some (upd a (vals r))]"
      "\<forall>i'. i' \<noteq> i \<longrightarrow> accsT i' gs rc1 = accsT i' gs rc"
      by blast
    have sl: "?s < length (accsT i gs rc)"
      using r(2) by (simp add: accsT_def)
    have init: "\<forall>r'\<in>set rs. accsT i gs rc1 ! (slots ! r') \<noteq> None"
      using Cons.prems(3) rc1(4) sl by (auto simp: nth_list_update)
    have rest: "\<forall>r\<in>set rs. r < length ig \<and> slots ! r < length gs \<and> ig ! r = gs ! (slots ! r) \<and>
           mapE (\<lambda>v. valueAt v r) args = Inr (vals r)"
      using Cons.prems(2) by simp
    from Cons.IH[OF rc1(2) rest init]
    show ?thesis
      using True r rd rc1 a by simp
  qed
qed

lemma batchRows_nth:
  "r < rv_size b \<Longrightarrow> batchRows b ! r = map (\<lambda>c. c ! r) (rv_children b)"
  by (simp add: batchRows_def)

lemma length_batchRows [simp]: "length (batchRows b) = rv_size b"
  by (simp add: batchRows_def)

lemma batchRows_cell:
  "r < rv_size b \<Longrightarrow> channel < length (rv_children b) \<Longrightarrow>
     batchRows b ! r ! channel = rv_children b ! channel ! r"
  by (simp add: batchRows_def)

lemma batchOk_column:
  "batchOk cfg b \<Longrightarrow> channel < length (rv_children b) \<Longrightarrow> length (rv_children b ! channel) = rv_size b"
  by (simp add: batchOk_def list_all_length)

lemma batchOk_key:
  "batchOk cfg b \<Longrightarrow> k \<in> set (groupingKeys' cfg) \<Longrightarrow> k < length (rv_children b)"
  by (simp add: batchOk_def list_all_iff)

lemma batchOk_mask:
  "batchOk cfg b \<Longrightarrow> i < length (maskChannels' cfg) \<Longrightarrow> maskChannels' cfg ! i = Some channel \<Longrightarrow>
     channel < length (rv_children b)"
  by (auto simp: batchOk_def list_all_length split: option.splits)

lemma batchOk_arg:
  "batchOk cfg b \<Longrightarrow> i < length (args' cfg) \<Longrightarrow> j < length (args' cfg ! i) \<Longrightarrow>
     args' cfg ! i ! j \<noteq> kConstantChannel \<Longrightarrow> args' cfg ! i ! j < length (rv_children b)"
  by (auto simp: batchOk_def list_all_length)

lemma masksAddInput_ok:
  assumes "batchOk cfg inp"
  shows "masksAddInput (maskChannels' cfg) inp (replicate (rv_size inp) True) =
     Inr (map (\<lambda>m. map_option (\<lambda>channel. map (\<lambda>r. rv_children inp ! channel ! r = Some 1)
                                          [0..<rv_size inp]) m) (maskChannels' cfg))"
  unfolding masksAddInput_def
proof (rule mapE_all)
  fix m assume m: "m \<in> set (maskChannels' cfg)"
  show "(case m of None \<Rightarrow> Inr None
         | Some channel \<Rightarrow> bindE (childAt inp channel) (\<lambda>c.
             bindE (mapE (\<lambda>r. bindE (nthE RowOutOfRange c (int r)) (\<lambda>v.
                      Inr (replicate (rv_size inp) True ! r \<and> v = Some 1)))
                      [0..<length (replicate (rv_size inp) True)]) (\<lambda>sel. Inr (Some sel)))) =
        Inr (map_option (\<lambda>channel. map (\<lambda>r. rv_children inp ! channel ! r = Some 1) [0..<rv_size inp]) m)"
  proof (cases m)
    case None
    then show ?thesis by simp
  next
    case (Some channel)
    with m assms have ch: "channel < length (rv_children inp)"
      by (auto simp: batchOk_def list_all_iff)
    have len: "length (rv_children inp ! channel) = rv_size inp"
      by (rule batchOk_column[OF assms ch])
    have "mapE (\<lambda>r. bindE (nthE RowOutOfRange (rv_children inp ! channel) (int r)) (\<lambda>v.
                      Inr (replicate (rv_size inp) True ! r \<and> v = Some 1))) [0..<rv_size inp] =
          Inr (map (\<lambda>r. rv_children inp ! channel ! r = Some 1) [0..<rv_size inp])"
      by (rule mapE_all) (simp add: len)
    then show ?thesis
      using Some ch by (simp add: childAt_def)
  qed
qed

lemma getSelectivityVector_ok:
  assumes "batchOk cfg inp" and "i < length (maskChannels' cfg)"
    and "inputRows' st = replicate (rv_size inp) True"
    and "maskedRows' st = map (\<lambda>m. map_option (\<lambda>channel. map (\<lambda>r. rv_children inp ! channel ! r = Some 1)
                                          [0..<rv_size inp]) m) (maskChannels' cfg)"
  shows "getSelectivityVector st i = Inr (selectionOf cfg inp i)"
proof (cases "maskChannels' cfg ! i")
  case None
  have "replicate (rv_size inp) True = map (selectedFor cfg i) (batchRows inp)"
    using None by (intro nth_equalityI) (simp_all add: selectedFor_def)
  then show ?thesis
    using None assms by (simp add: getSelectivityVector_def activeRows_def selectionOf_def)
next
  case (Some channel)
  have ch: "channel < length (rv_children inp)"
    by (rule batchOk_mask[OF assms(1,2) Some])
  have "map (\<lambda>r. rv_children inp ! channel ! r = Some 1) [0..<rv_size inp] =
        map (selectedFor cfg i) (batchRows inp)"
    using Some ch by (intro nth_equalityI) (simp_all add: selectedFor_def batchRows_cell)
  then show ?thesis
    using Some assms by (simp add: getSelectivityVector_def activeRows_def selectionOf_def)
qed

lemma aggregateArgs_ok:
  assumes "configOk cfg" and "batchOk cfg inp" and "i < length (aggregates' cfg)"
  shows "aggregateArgs cfg (Some inp) i = Inr (argVectors cfg inp i)"
proof -
  have i: "i < length (args' cfg)" "i < length (constantArgs' cfg)"
    using assms(1,3) by (simp_all add: configOk_def)
  have cl: "length (constantArgs' cfg ! i) = length (args' cfg ! i)"
    using assms(1,3) by (simp add: configOk_def list_all_length)
  have "mapE (\<lambda>j. if args' cfg ! i ! j = kConstantChannel then
                    bindE (nthE ColumnOutOfRange (constantArgs' cfg) (int i)) (\<lambda>constants.
                      nthE ColumnOutOfRange constants (int j))
                  else
                    (case Some inp of
                       None \<Rightarrow> Inl NullPointer
                     | Some batch \<Rightarrow>
                         bindE (childAt batch (args' cfg ! i ! j)) (\<lambda>c. Inr (Some (FlatVector c)))))
         [0..<length (args' cfg ! i)] = Inr (argVectors cfg inp i)"
    unfolding argVectors_def
  proof (rule mapE_all)
    fix j assume "j \<in> set [0..<length (args' cfg ! i)]"
    then have j: "j < length (args' cfg ! i)" by simp
    show "(if args' cfg ! i ! j = kConstantChannel then
             bindE (nthE ColumnOutOfRange (constantArgs' cfg) (int i)) (\<lambda>constants.
               nthE ColumnOutOfRange constants (int j))
           else
             (case Some inp of
                None \<Rightarrow> Inl NullPointer
              | Some batch \<Rightarrow>
                  bindE (childAt batch (args' cfg ! i ! j)) (\<lambda>c. Inr (Some (FlatVector c))))) =
          Inr (if args' cfg ! i ! j = kConstantChannel then constantArgs' cfg ! i ! j
               else Some (FlatVector (rv_children inp ! (args' cfg ! i ! j))))"
      using i j cl batchOk_arg[OF assms(2) i(1) j] by (simp add: childAt_def)
  qed
  then show ?thesis
    using i by (simp add: aggregateArgs_def)
qed

lemma argVectors_values:
  assumes "configOk cfg" and "batchOk cfg inp" and "i < length (aggregates' cfg)" and "r < rv_size inp"
  shows "mapE (\<lambda>v. valueAt v r) (argVectors cfg inp i) = Inr (argValues cfg i (batchRows inp ! r))"
proof -
  have i: "i < length (args' cfg)"
    using assms(1,3) by (simp add: configOk_def)
  have "mapE (\<lambda>v. valueAt v r) (argVectors cfg inp i) =
      Inr (map (\<lambda>v. case v of Some (ConstantVector x) \<Rightarrow> x
                      | Some (FlatVector c) \<Rightarrow> c ! r | None \<Rightarrow> None) (argVectors cfg inp i))"
  proof (rule mapE_all)
    fix v assume "v \<in> set (argVectors cfg inp i)"
    then obtain j where j: "j < length (args' cfg ! i)"
      and v: "v = (if args' cfg ! i ! j = kConstantChannel then constantArgs' cfg ! i ! j
               else Some (FlatVector (rv_children inp ! (args' cfg ! i ! j))))"
      by (auto simp: argVectors_def)
    show "valueAt v r = Inr (case v of Some (ConstantVector x) \<Rightarrow> x
                      | Some (FlatVector c) \<Rightarrow> c ! r | None \<Rightarrow> None)"
    proof (cases "args' cfg ! i ! j = kConstantChannel")
      case True
      with assms(1,3) j obtain x where "constantArgs' cfg ! i ! j = Some (ConstantVector x)"
        by (auto simp: configOk_def list_all_length)
      then show ?thesis using v True by (simp add: valueAt_def)
    next
      case False
      have "length (rv_children inp ! (args' cfg ! i ! j)) = rv_size inp"
        by (rule batchOk_column[OF assms(2) batchOk_arg[OF assms(2) i j False]])
      then show ?thesis using v False assms(4) by (simp add: valueAt_def)
    qed
  qed
  moreover have "map (\<lambda>v. case v of Some (ConstantVector x) \<Rightarrow> x
                      | Some (FlatVector c) \<Rightarrow> c ! r | None \<Rightarrow> None) (argVectors cfg inp i) =
      argValues cfg i (batchRows inp ! r)"
    unfolding argVectors_def argValues_def
  proof (rule nth_equalityI)
    show "length (map (\<lambda>v. case v of Some (ConstantVector x) \<Rightarrow> x
                      | Some (FlatVector c) \<Rightarrow> c ! r | None \<Rightarrow> None)
           (map (\<lambda>j. if args' cfg ! i ! j = kConstantChannel then constantArgs' cfg ! i ! j
              else Some (FlatVector (rv_children inp ! (args' cfg ! i ! j))))
              [0..<length (args' cfg ! i)])) =
          length (map (\<lambda>j. if args' cfg ! i ! j = kConstantChannel
              then constantValue (constantArgs' cfg ! i ! j)
              else batchRows inp ! r ! (args' cfg ! i ! j)) [0..<length (args' cfg ! i)])"
      by simp
  next
    fix j assume "j < length (map (\<lambda>v. case v of Some (ConstantVector x) \<Rightarrow> x
                      | Some (FlatVector c) \<Rightarrow> c ! r | None \<Rightarrow> None)
           (map (\<lambda>j. if args' cfg ! i ! j = kConstantChannel then constantArgs' cfg ! i ! j
              else Some (FlatVector (rv_children inp ! (args' cfg ! i ! j))))
              [0..<length (args' cfg ! i)]))"
    then have j: "j < length (args' cfg ! i)" by simp
    show "map (\<lambda>v. case v of Some (ConstantVector x) \<Rightarrow> x
                      | Some (FlatVector c) \<Rightarrow> c ! r | None \<Rightarrow> None)
           (map (\<lambda>j. if args' cfg ! i ! j = kConstantChannel then constantArgs' cfg ! i ! j
              else Some (FlatVector (rv_children inp ! (args' cfg ! i ! j))))
              [0..<length (args' cfg ! i)]) ! j =
          map (\<lambda>j. if args' cfg ! i ! j = kConstantChannel
              then constantValue (constantArgs' cfg ! i ! j)
              else batchRows inp ! r ! (args' cfg ! i ! j)) [0..<length (args' cfg ! i)] ! j"
    proof (cases "args' cfg ! i ! j = kConstantChannel")
      case True
      with assms(1,3) j obtain x where "constantArgs' cfg ! i ! j = Some (ConstantVector x)"
        by (auto simp: configOk_def list_all_length)
      then show ?thesis using True j by (simp add: constantValue_def)
    next
      case False
      then show ?thesis
        using j assms(4) batchOk_arg[OF assms(2) i j False] by (simp add: batchRows_cell)
    qed
  qed
  ultimately show ?thesis by simp
qed

lemma zip_nth_upt:
  "length xs = length ys \<Longrightarrow> zip xs ys = map (\<lambda>r. (xs ! r, ys ! r)) [0..<length ys]"
  by (rule nth_equalityI) simp_all

lemma absorbInto_rows:
  assumes "length slots = length rows"
  shows "foldl (\<lambda>A r. if map (selectedFor cfg i) rows ! r
                 then A[slots ! r := map_option (\<lambda>a. updateOf cfg i a (argValues cfg i (rows ! r))) (A ! (slots ! r))]
                 else A) A [0..<length rows] =
         absorbInto cfg i A (zip slots rows)"
proof -
  have "absorbInto cfg i A (zip slots rows) =
      foldl (\<lambda>A r. A[slots ! r := map_option (\<lambda>a. stepAcc cfg i a (rows ! r)) (A ! (slots ! r))]) A
        [0..<length rows]"
    unfolding absorbInto_def zip_nth_upt[OF assms] by (simp add: foldl_map)
  also have "\<dots> = foldl (\<lambda>A r. if map (selectedFor cfg i) rows ! r
                 then A[slots ! r := map_option (\<lambda>a. updateOf cfg i a (argValues cfg i (rows ! r))) (A ! (slots ! r))]
                 else A) A [0..<length rows]"
  proof (rule foldl_cong)
    fix A :: "'a option list" and r assume "r \<in> set [0..<length rows]"
    then have r: "r < length rows" by simp
    show "A[slots ! r := map_option (\<lambda>a. stepAcc cfg i a (rows ! r)) (A ! (slots ! r))] =
        (if map (selectedFor cfg i) rows ! r
         then A[slots ! r := map_option (\<lambda>a. updateOf cfg i a (argValues cfg i (rows ! r))) (A ! (slots ! r))]
         else A)"
      using r by (simp add: stepAcc_def option.map_ident)
  qed simp_all
  finally show ?thesis by simp
qed

lemma evaluateAggregate_ok:
  assumes "configOk cfg" and "batchOk cfg inp" and "i < length (aggregates' cfg)"
    and "input' st = Some inp"
    and "inputRows' st = replicate (rv_size inp) True"
    and "maskedRows' st = map (\<lambda>m. map_option (\<lambda>channel. map (\<lambda>r. rv_children inp ! channel ! r = Some 1)
                                          [0..<rv_size inp]) m) (maskChannels' cfg)"
    and "poolOk cfg (groups' st) (rows' st)"
    and "length slots = rv_size inp"
    and "inputGroups' st = map (\<lambda>s. groups' st ! s) slots"
    and "\<forall>s\<in>set slots. s < length (groups' st)"
    and "\<forall>s\<in>set slots. accsT i (groups' st) (rows' st) ! s \<noteq> None"
  shows "\<exists>rc1. evaluateAggregate cfg i st =
        Inr (st\<lparr>rows' := rc1, calls' := calls' st @ [updateCall cfg inp (inputGroups' st) i]\<rparr>) \<and>
      poolOk cfg (groups' st) rc1 \<and>
      keysT (groups' st) rc1 = keysT (groups' st) (rows' st) \<and>
      accsT i (groups' st) rc1 =
        absorbInto cfg i (accsT i (groups' st) (rows' st)) (zip slots (batchRows inp)) \<and>
      (\<forall>i'. i' \<noteq> i \<longrightarrow> accsT i' (groups' st) rc1 = accsT i' (groups' st) (rows' st))"
proof -
  let ?rows = "batchRows inp"
  let ?sel = "selectionOf cfg inp i"
  have im: "i < length (maskChannels' cfg)"
    using assms(1,3) by (simp add: configOk_def)
  have sel: "getSelectivityVector st i = Inr ?sel"
    by (rule getSelectivityVector_ok[OF assms(2) im assms(5,6)])
  have args: "aggregateArgs cfg (input' st) i = Inr (argVectors cfg inp i)"
    using aggregateArgs_ok[OF assms(1,2,3)] assms(4) by simp
  have rows: "\<forall>r\<in>set [0..<rv_size inp]. r < length (inputGroups' st) \<and> slots ! r < length (groups' st) \<and>
       inputGroups' st ! r = groups' st ! (slots ! r) \<and>
       mapE (\<lambda>v. valueAt v r) (argVectors cfg inp i) = Inr (argValues cfg i (?rows ! r))"
    using assms(8,9,10) argVectors_values[OF assms(1,2,3)] by simp
  have init: "\<forall>r\<in>set [0..<rv_size inp]. accsT i (groups' st) (rows' st) ! (slots ! r) \<noteq> None"
    using assms(8,11) by simp
  from updateRows_ok[OF assms(7,3) rows init, of ?sel "updateOf cfg i"]
  obtain rc1 where rc1: "updateGroups (updateOf cfg i) i (inputGroups' st) ?sel (argVectors cfg inp i) (rows' st) = Inr rc1"
    "poolOk cfg (groups' st) rc1"
    "keysT (groups' st) rc1 = keysT (groups' st) (rows' st)"
    "accsT i (groups' st) rc1 =
        foldl (\<lambda>A r. if ?sel ! r then A[slots ! r := map_option (\<lambda>a. updateOf cfg i a (argValues cfg i (?rows ! r))) (A ! (slots ! r))] else A)
          (accsT i (groups' st) (rows' st)) [0..<rv_size inp]"
    "\<forall>i'. i' \<noteq> i \<longrightarrow> accsT i' (groups' st) rc1 = accsT i' (groups' st) (rows' st)"
    unfolding updateGroups_def by (auto simp: selectionOf_def)
  have col: "accsT i (groups' st) rc1 =
        absorbInto cfg i (accsT i (groups' st) (rows' st)) (zip slots ?rows)"
    using rc1(4) absorbInto_rows[of slots ?rows cfg i] assms(8) by (simp add: selectionOf_def)
  have run: "evaluateAggregate cfg i st =
        Inr (st\<lparr>rows' := rc1, calls' := calls' st @ [updateCall cfg inp (inputGroups' st) i]\<rparr>)"
    using sel args rc1(1) assms(3)
    by (cases "isRawInput (step' cfg)")
      (simp_all add: evaluateAggregate_def addRawInput_def addIntermediateResults_def updateCall_def updateOf_def)
  show ?thesis
    using run rc1(2,3,5) col by blast
qed

lemma evaluateAggregates_prefix:
  assumes "configOk cfg" and "batchOk cfg inp"
    and "input' st = Some inp"
    and "inputRows' st = replicate (rv_size inp) True"
    and "maskedRows' st = map (\<lambda>m. map_option (\<lambda>channel. map (\<lambda>r. rv_children inp ! channel ! r = Some 1)
                                          [0..<rv_size inp]) m) (maskChannels' cfg)"
    and "poolOk cfg (groups' st) (rows' st)"
    and "length slots = rv_size inp"
    and "inputGroups' st = map (\<lambda>s. groups' st ! s) slots"
    and "\<forall>s\<in>set slots. s < length (groups' st)"
    and "\<forall>i<length (aggregates' cfg). \<forall>s\<in>set slots. accsT i (groups' st) (rows' st) ! s \<noteq> None"
    and "k \<le> length (aggregates' cfg)"
  shows "\<exists>rc1. foldE (evaluateAggregate cfg) [0..<k] st =
        Inr (st\<lparr>rows' := rc1, calls' := calls' st @ map (updateCall cfg inp (inputGroups' st)) [0..<k]\<rparr>) \<and>
      poolOk cfg (groups' st) rc1 \<and>
      keysT (groups' st) rc1 = keysT (groups' st) (rows' st) \<and>
      (\<forall>i<k. accsT i (groups' st) rc1 =
         absorbInto cfg i (accsT i (groups' st) (rows' st)) (zip slots (batchRows inp))) \<and>
      (\<forall>i\<ge>k. accsT i (groups' st) rc1 = accsT i (groups' st) (rows' st))"
  using assms(11)
proof (induction k)
  case 0
  then show ?case
    using assms(6) by (intro exI[of _ "rows' st"]) simp
next
  case (Suc k)
  then obtain rc1 where rc1: "foldE (evaluateAggregate cfg) [0..<k] st =
        Inr (st\<lparr>rows' := rc1, calls' := calls' st @ map (updateCall cfg inp (inputGroups' st)) [0..<k]\<rparr>)"
      "poolOk cfg (groups' st) rc1"
      "keysT (groups' st) rc1 = keysT (groups' st) (rows' st)"
      "\<forall>i<k. accsT i (groups' st) rc1 =
         absorbInto cfg i (accsT i (groups' st) (rows' st)) (zip slots (batchRows inp))"
      "\<forall>i\<ge>k. accsT i (groups' st) rc1 = accsT i (groups' st) (rows' st)"
    by auto
  let ?st = "st\<lparr>rows' := rc1, calls' := calls' st @ map (updateCall cfg inp (inputGroups' st)) [0..<k]\<rparr>"
  have k: "k < length (aggregates' cfg)" using Suc.prems by simp
  have init: "\<forall>s\<in>set slots. accsT k (groups' ?st) (rows' ?st) ! s \<noteq> None"
    using assms(10) k rc1(5) by simp
  from evaluateAggregate_ok[of cfg inp k ?st slots, OF assms(1,2) k _ _ _ _ assms(7) _ _ init]
    assms(3,4,5,8,9) rc1(2)
  obtain rc2 where rc2: "evaluateAggregate cfg k ?st =
        Inr (?st\<lparr>rows' := rc2, calls' := calls' ?st @ [updateCall cfg inp (inputGroups' ?st) k]\<rparr>)"
      "poolOk cfg (groups' st) rc2"
      "keysT (groups' st) rc2 = keysT (groups' st) rc1"
      "accsT k (groups' st) rc2 = absorbInto cfg k (accsT k (groups' st) rc1) (zip slots (batchRows inp))"
      "\<forall>i'. i' \<noteq> k \<longrightarrow> accsT i' (groups' st) rc2 = accsT i' (groups' st) rc1"
    by auto
  have run: "foldE (evaluateAggregate cfg) [0..<Suc k] st =
        Inr (st\<lparr>rows' := rc2, calls' := calls' st @ map (updateCall cfg inp (inputGroups' st)) [0..<Suc k]\<rparr>)"
    using rc1(1) rc2(1) by (simp add: foldE_append)
  have upto: "\<forall>i<Suc k. accsT i (groups' st) rc2 =
         absorbInto cfg i (accsT i (groups' st) (rows' st)) (zip slots (batchRows inp))"
    using rc1(4,5) rc2(4,5) by (auto simp: less_Suc_eq)
  have rest: "\<forall>i\<ge>Suc k. accsT i (groups' st) rc2 = accsT i (groups' st) (rows' st)"
    using rc1(5) rc2(5) by auto
  show ?case
    using run rc2(2,3) rc1(3) upto rest by (intro exI[of _ rc2]) simp
qed

lemma initializeAggregateGroups_ok:
  assumes "poolOk cfg (groups' st) (rows' st)" and "i < length (aggregates' cfg)"
    and "a \<le> b" and "b \<le> length (groups' st)"
  shows "\<exists>rc1. initializeAggregateGroups cfg [a..<b] i st =
        Inr (st\<lparr>rows' := rc1, calls' := calls' st @ [InitializeNewGroups i (groups' st) [a..<b]]\<rparr>) \<and>
      poolOk cfg (groups' st) rc1 \<and>
      keysT (groups' st) rc1 = keysT (groups' st) (rows' st) \<and>
      accsT i (groups' st) rc1 =
        overwrite a b (Some (initialValue (aggregates' cfg ! i))) (accsT i (groups' st) (rows' st)) \<and>
      (\<forall>i'. i' \<noteq> i \<longrightarrow> accsT i' (groups' st) rc1 = accsT i' (groups' st) (rows' st))"
proof -
  from initializeNewGroups_ok[OF assms, of "aggregates' cfg ! i"]
  obtain rc1 where rc1: "initializeNewGroups (aggregates' cfg ! i) i (groups' st) [a..<b] (rows' st) = Inr rc1"
    "poolOk cfg (groups' st) rc1"
    "keysT (groups' st) rc1 = keysT (groups' st) (rows' st)"
    "accsT i (groups' st) rc1 =
        overwrite a b (Some (initialValue (aggregates' cfg ! i))) (accsT i (groups' st) (rows' st))"
    "\<forall>i'. i' \<noteq> i \<longrightarrow> accsT i' (groups' st) rc1 = accsT i' (groups' st) (rows' st)"
    by blast
  have "initializeAggregateGroups cfg [a..<b] i st =
        Inr (st\<lparr>rows' := rc1, calls' := calls' st @ [InitializeNewGroups i (groups' st) [a..<b]]\<rparr>)"
    using rc1(1) assms(2) by (simp add: initializeAggregateGroups_def)
  then show ?thesis
    using rc1 by blast
qed

lemma initializeGroups_prefix:
  assumes "poolOk cfg (groups' st) (rows' st)" and "a \<le> b" and "b \<le> length (groups' st)"
    and "k \<le> length (aggregates' cfg)"
  shows "\<exists>rc1. foldE (initializeAggregateGroups cfg [a..<b]) [0..<k] st =
        Inr (st\<lparr>rows' := rc1,
                calls' := calls' st @ map (\<lambda>i. InitializeNewGroups i (groups' st) [a..<b]) [0..<k]\<rparr>) \<and>
      poolOk cfg (groups' st) rc1 \<and>
      keysT (groups' st) rc1 = keysT (groups' st) (rows' st) \<and>
      (\<forall>i<k. accsT i (groups' st) rc1 =
         overwrite a b (Some (initialValue (aggregates' cfg ! i))) (accsT i (groups' st) (rows' st))) \<and>
      (\<forall>i\<ge>k. accsT i (groups' st) rc1 = accsT i (groups' st) (rows' st))"
  using assms(4)
proof (induction k)
  case 0
  then show ?case
    using assms(1) by (intro exI[of _ "rows' st"]) simp
next
  case (Suc k)
  then obtain rc1 where rc1: "foldE (initializeAggregateGroups cfg [a..<b]) [0..<k] st =
        Inr (st\<lparr>rows' := rc1,
                calls' := calls' st @ map (\<lambda>i. InitializeNewGroups i (groups' st) [a..<b]) [0..<k]\<rparr>)"
      "poolOk cfg (groups' st) rc1"
      "keysT (groups' st) rc1 = keysT (groups' st) (rows' st)"
      "\<forall>i<k. accsT i (groups' st) rc1 =
         overwrite a b (Some (initialValue (aggregates' cfg ! i))) (accsT i (groups' st) (rows' st))"
      "\<forall>i\<ge>k. accsT i (groups' st) rc1 = accsT i (groups' st) (rows' st)"
    by auto
  let ?st = "st\<lparr>rows' := rc1,
                calls' := calls' st @ map (\<lambda>i. InitializeNewGroups i (groups' st) [a..<b]) [0..<k]\<rparr>"
  have k: "k < length (aggregates' cfg)" using Suc.prems by simp
  from initializeAggregateGroups_ok[of cfg ?st k a b] rc1(2) k assms(2,3)
  obtain rc2 where rc2: "initializeAggregateGroups cfg [a..<b] k ?st =
        Inr (?st\<lparr>rows' := rc2, calls' := calls' ?st @ [InitializeNewGroups k (groups' ?st) [a..<b]]\<rparr>)"
      "poolOk cfg (groups' st) rc2"
      "keysT (groups' st) rc2 = keysT (groups' st) rc1"
      "accsT k (groups' st) rc2 =
        overwrite a b (Some (initialValue (aggregates' cfg ! k))) (accsT k (groups' st) rc1)"
      "\<forall>i'. i' \<noteq> k \<longrightarrow> accsT i' (groups' st) rc2 = accsT i' (groups' st) rc1"
    by auto
  have run: "foldE (initializeAggregateGroups cfg [a..<b]) [0..<Suc k] st =
        Inr (st\<lparr>rows' := rc2,
                calls' := calls' st @ map (\<lambda>i. InitializeNewGroups i (groups' st) [a..<b]) [0..<Suc k]\<rparr>)"
    using rc1(1) rc2(1) by (simp add: foldE_append)
  have upto: "\<forall>i<Suc k. accsT i (groups' st) rc2 =
         overwrite a b (Some (initialValue (aggregates' cfg ! i))) (accsT i (groups' st) (rows' st))"
    using rc1(4,5) rc2(4,5) by (auto simp: less_Suc_eq)
  have rest: "\<forall>i\<ge>Suc k. accsT i (groups' st) rc2 = accsT i (groups' st) (rows' st)"
    using rc1(5) rc2(5) by auto
  show ?case
    using run rc2(2,3) rc1(3) upto rest by (intro exI[of _ rc2]) simp
qed

section \<open>Assigning rows to groups\<close>

lemma keysT_nth: "j < length gs \<Longrightarrow> keysT gs rc ! j = rowKeys (rc_rows rc ! the (gs ! j))"
  by (simp add: keysT_def)

lemma accsT_nth: "j < length gs \<Longrightarrow> accsT i gs rc ! j = rowAccs (rc_rows rc ! the (gs ! j)) ! i"
  by (simp add: accsT_def)

lemma length_keysT [simp]: "length (keysT gs rc) = length gs"
  by (simp add: keysT_def)

lemma length_accsT [simp]: "length (accsT i gs rc) = length gs"
  by (simp add: accsT_def)

lemma startNewGroup_ok:
  assumes "slotsOk cfg st" and "\<forall>c\<in>set (decodedKeys' st). index < length c"
  shows "\<exists>p st1. startNewGroup cfg index st = Inr (p, st1) \<and> slotsOk cfg st1 \<and>
      numGroups' st1 = Suc (numGroups' st) \<and>
      groups' st1 ! numGroups' st = p \<and>
      take (numGroups' st) (groups' st1) = take (numGroups' st) (groups' st) \<and>
      liveKeys st1 = liveKeys st @ [map (\<lambda>c. c ! index) (decodedKeys' st)] \<and>
      (\<forall>i. take (numGroups' st) (accsT i (groups' st1) (rows' st1)) = liveAccs i st) \<and>
      inputGroups' st1 = inputGroups' st \<and> unchangedButPool st st1 \<and>
      decodedKeys' st1 = decodedKeys' st"
proof (cases "numGroups' st < length (groups' st)")
  case True
  let ?n = "numGroups' st"
  let ?row = "keyedRow cfg (decodedKeys' st) index"
  from startNewGroup_reuse[OF assms(1) True assms(2)]
  obtain a where a: "groups' st ! ?n = Some a" "a < length (rc_rows (rows' st))"
    and run: "startNewGroup cfg index st =
       Inr (Some a, st\<lparr>numGroups' := ?n + 1,
              rows' := (rows' st)\<lparr>rc_rows := (rc_rows (rows' st))[a := ?row]\<rparr>\<rparr>)"
    by blast
  let ?rc = "(rows' st)\<lparr>rc_rows := (rc_rows (rows' st))[a := ?row]\<rparr>"
  let ?st1 = "st\<lparr>numGroups' := ?n + 1, rows' := ?rc\<rparr>"
  have pool: "poolOk cfg (groups' st) (rows' st)"
    using assms(1) by (simp add: slotsOk_pool)
  have shaped: "rowShaped cfg ?row"
    using assms(1) by (simp add: rowShaped_def keyedRow_def slotsOk_def)
  have pool1: "poolOk cfg (groups' st) ?rc"
    by (rule pool_update[OF pool True a(1) shaped])
  have ok: "slotsOk cfg ?st1"
    using pool1 True assms(1) by (simp add: slotsOk_pool)
  have other: "rc_rows ?rc ! the (groups' st ! j) = rc_rows (rows' st) ! the (groups' st ! j)"
    if "j < ?n" for j
  proof -
    have "the (groups' st ! j) \<noteq> a"
      using pool_other[OF pool True a(1), of j] that True by simp
    then show ?thesis by simp
  qed
  have keys: "liveKeys ?st1 = liveKeys st @ [map (\<lambda>c. c ! index) (decodedKeys' st)]"
  proof (rule nth_equalityI)
    show "length (liveKeys ?st1) = length (liveKeys st @ [map (\<lambda>c. c ! index) (decodedKeys' st)])"
      using True by (simp add: liveKeys_def)
    fix j assume "j < length (liveKeys ?st1)"
    then have j: "j < Suc ?n" using True by (simp add: liveKeys_def)
    show "liveKeys ?st1 ! j = (liveKeys st @ [map (\<lambda>c. c ! index) (decodedKeys' st)]) ! j"
    proof (cases "j = ?n")
      case jn: True
      then show ?thesis
        using True a by (simp add: liveKeys_def keysT_nth nth_append keyedRow_def)
    next
      case False
      with j have jl: "j < ?n" by simp
      then show ?thesis
        using True other[OF jl] by (simp add: liveKeys_def keysT_nth nth_append)
    qed
  qed
  have accs: "take ?n (accsT i (groups' ?st1) (rows' ?st1)) = liveAccs i st" for i
  proof (rule nth_equalityI)
    show "length (take ?n (accsT i (groups' ?st1) (rows' ?st1))) = length (liveAccs i st)"
      by (simp add: liveAccs_def)
    fix j assume "j < length (take ?n (accsT i (groups' ?st1) (rows' ?st1)))"
    then have jl: "j < ?n" by simp
    then show "take ?n (accsT i (groups' ?st1) (rows' ?st1)) ! j = liveAccs i st ! j"
      using True other[OF jl] by (simp add: liveAccs_def accsT_nth)
  qed
  show ?thesis
    using run ok a keys accs by (simp add: unchangedButPool_def)
next
  case False
  let ?n = "numGroups' st"
  let ?row = "keyedRow cfg (decodedKeys' st) index"
  let ?a = "length (rc_rows (rows' st))"
  let ?rc = "(rows' st)\<lparr>rc_rows := rc_rows (rows' st) @ [?row]\<rparr>"
  let ?st1 = "st\<lparr>numGroups' := ?n + 1, groups' := groups' st @ [Some ?a], rows' := ?rc\<rparr>"
  have run: "startNewGroup cfg index st = Inr (Some ?a, ?st1)"
    by (rule startNewGroup_fresh[OF assms(1) False assms(2)])
  have n: "?n = length (groups' st)"
    using assms(1) False by (simp add: slotsOk_def)
  have shaped: "rowShaped cfg ?row"
    using assms(1) by (simp add: rowShaped_def keyedRow_def slotsOk_def)
  have valid: "\<exists>a. p = Some a \<and> a < ?a" if "p \<in> set (groups' st)" for p
  proof -
    from that assms(1) have "validPtr (rows' st) p"
      by (simp add: slotsOk_def list_all_iff)
    then show ?thesis by (cases p) (simp_all add: validPtr_def)
  qed
  have fresh: "Some ?a \<notin> set (groups' st)"
  proof
    assume "Some ?a \<in> set (groups' st)"
    from valid[OF this] show False by simp
  qed
  have valid1: "list_all (validPtr ?rc) (groups' st @ [Some ?a])"
    using valid by (fastforce simp: list_all_iff validPtr_def)
  have ok: "slotsOk cfg ?st1"
    using assms(1) n shaped fresh valid1 by (simp add: slotsOk_def)
  have other: "rc_rows ?rc ! the (groups' st ! j) = rc_rows (rows' st) ! the (groups' st ! j)"
    if "j < ?n" for j
  proof -
    have "groups' st ! j \<in> set (groups' st)"
      using that n by simp
    from valid[OF this] have "the (groups' st ! j) < ?a"
      by auto
    then show ?thesis by (simp add: nth_append)
  qed
  have keys: "liveKeys ?st1 = liveKeys st @ [map (\<lambda>c. c ! index) (decodedKeys' st)]"
  proof (rule nth_equalityI)
    show "length (liveKeys ?st1) = length (liveKeys st @ [map (\<lambda>c. c ! index) (decodedKeys' st)])"
      using n by (simp add: liveKeys_def)
    fix j assume "j < length (liveKeys ?st1)"
    then have j: "j < Suc ?n" using n by (simp add: liveKeys_def)
    show "liveKeys ?st1 ! j = (liveKeys st @ [map (\<lambda>c. c ! index) (decodedKeys' st)]) ! j"
    proof (cases "j = ?n")
      case jn: True
      then show ?thesis
        using n by (simp add: liveKeys_def keysT_nth nth_append keyedRow_def)
    next
      case jn: False
      with j have jl: "j < ?n" by simp
      then show ?thesis
        using n other[OF jl] by (simp add: liveKeys_def keysT_nth nth_append)
    qed
  qed
  have accs: "take ?n (accsT i (groups' ?st1) (rows' ?st1)) = liveAccs i st" for i
  proof (rule nth_equalityI)
    show "length (take ?n (accsT i (groups' ?st1) (rows' ?st1))) = length (liveAccs i st)"
      using n by (simp add: liveAccs_def)
    fix j assume "j < length (take ?n (accsT i (groups' ?st1) (rows' ?st1)))"
    then have jl: "j < ?n" by simp
    then show "take ?n (accsT i (groups' ?st1) (rows' ?st1)) ! j = liveAccs i st ! j"
      using n other[OF jl] by (simp add: liveAccs_def accsT_nth nth_append)
  qed
  show ?thesis
    using run ok n keys accs by (simp add: unchangedButPool_def)
qed

declare seamLoop.simps [simp del]
declare groupLoop.simps [simp del]

lemma equalKeys_columns:
  assumes "\<forall>k\<in>set keys. k < length (rv_children b) \<and> k < length (rv_children b1)"
    and "\<forall>k\<in>set keys. length (rv_children b ! k) = rv_size b \<and> length (rv_children b1 ! k) = rv_size b1"
    and "i < rv_size b" and "i1 < rv_size b1"
  shows "equalKeys keys b (int i) b1 (int i1) =
     Inr (map (\<lambda>k. rv_children b ! k ! i) keys = map (\<lambda>k. rv_children b1 ! k ! i1) keys)"
  using assms(1,2)
proof (induction keys)
  case Nil
  then show ?case by simp
next
  case (Cons k keys)
  then show ?case
    using assms(3,4) by (simp add: childAt_def equalValueAt_def)
qed

lemma keyOf_batchRows:
  assumes "batchOk cfg b" and "r < rv_size b"
  shows "keyOf cfg (batchRows b ! r) = map (\<lambda>k. rv_children b ! k ! r) (groupingKeys' cfg)"
  unfolding keyOf_def
proof (rule map_cong[OF refl])
  fix k assume "k \<in> set (groupingKeys' cfg)"
  then have "k < length (rv_children b)" by (rule batchOk_key[OF assms(1)])
  then show "batchRows b ! r ! k = rv_children b ! k ! r"
    using assms(2) by (simp add: batchRows_cell)
qed

lemma batchKeys_nth:
  "r < rv_size b \<Longrightarrow> batchKeys cfg b ! r = keyOf cfg (batchRows b ! r)"
  by (simp add: batchKeys_def)

lemma length_batchKeys [simp]: "length (batchKeys cfg b) = rv_size b"
  by (simp add: batchKeys_def)

lemma equalKeys_ok:
  assumes "batchOk cfg b" and "batchOk cfg b1" and "i < rv_size b" and "i1 < rv_size b1"
  shows "equalKeys (groupingKeys' cfg) b (int i) b1 (int i1) =
     Inr (batchKeys cfg b ! i = batchKeys cfg b1 ! i1)"
proof -
  have "\<forall>k\<in>set (groupingKeys' cfg). k < length (rv_children b) \<and> k < length (rv_children b1)"
    using batchOk_key[OF assms(1)] batchOk_key[OF assms(2)] by blast
  moreover from this have "\<forall>k\<in>set (groupingKeys' cfg).
      length (rv_children b ! k) = rv_size b \<and> length (rv_children b1 ! k) = rv_size b1"
    using batchOk_column[OF assms(1)] batchOk_column[OF assms(2)] by blast
  ultimately show ?thesis
    using equalKeys_columns[of "groupingKeys' cfg" b b1 i i1] assms
    by (simp add: batchKeys_nth keyOf_batchRows)
qed

lemma decodeKeys_prefix:
  assumes "batchOk cfg inp" and "n \<le> length (groupingKeys' cfg)" and "n \<le> length (decodedKeys' st)"
  shows "foldE (\<lambda>i st. bindE (nthE ColumnOutOfRange (groupingKeys' cfg) (int i)) (\<lambda>channel.
                    bindE (childAt inp channel) (\<lambda>c.
                    bindE (assignAt ColumnOutOfRange (decodedKeys' st) i c) (\<lambda>decoded.
                      Inr (st\<lparr>decodedKeys' := decoded\<rparr>))))) [0..<n] st =
         Inr (st\<lparr>decodedKeys' := map (\<lambda>i. rv_children inp ! (groupingKeys' cfg ! i)) [0..<n] @
                                     drop n (decodedKeys' st)\<rparr>)"
  using assms(2,3)
proof (induction n)
  case 0
  then show ?case by simp
next
  case (Suc n)
  have k: "groupingKeys' cfg ! n < length (rv_children inp)"
    using Suc.prems(1) batchOk_key[OF assms(1)] by simp
  have "drop n (decodedKeys' st) = decodedKeys' st ! n # drop (Suc n) (decodedKeys' st)"
    using Suc.prems(2) Cons_nth_drop_Suc[of n "decodedKeys' st"] by simp
  then have "(map (\<lambda>i. rv_children inp ! (groupingKeys' cfg ! i)) [0..<n] @ drop n (decodedKeys' st))
        [n := rv_children inp ! (groupingKeys' cfg ! n)] =
      map (\<lambda>i. rv_children inp ! (groupingKeys' cfg ! i)) [0..<n] @
        [rv_children inp ! (groupingKeys' cfg ! n)] @ drop (Suc n) (decodedKeys' st)"
    by (simp add: list_update_append)
  then show ?case
    using Suc k by (simp add: foldE_append childAt_def)
qed

lemma decodeKeys_ok:
  assumes "batchOk cfg inp" and "length (decodedKeys' st) = length (groupingKeys' cfg)"
  shows "decodeKeys cfg inp st =
         Inr (st\<lparr>decodedKeys' := map (\<lambda>k. rv_children inp ! k) (groupingKeys' cfg)\<rparr>)"
proof -
  have m: "map (\<lambda>i. rv_children inp ! (groupingKeys' cfg ! i)) [0..<length (groupingKeys' cfg)] =
      map (\<lambda>k. rv_children inp ! k) (groupingKeys' cfg)"
    by (intro nth_equalityI) simp_all
  have d: "drop (length (groupingKeys' cfg)) (decodedKeys' st) = []"
    using assms(2) by simp
  have "length (groupingKeys' cfg) \<le> length (groupingKeys' cfg)"
    "length (groupingKeys' cfg) \<le> length (decodedKeys' st)"
    using assms(2) by simp_all
  from decodeKeys_prefix[OF assms(1) this]
  show ?thesis
    unfolding decodeKeys_def m d by simp
qed

lemma decoded_row:
  assumes "batchOk cfg inp" and "r < rv_size inp"
  shows "\<forall>c\<in>set (map (\<lambda>k. rv_children inp ! k) (groupingKeys' cfg)). r < length c"
    and "map (\<lambda>c. c ! r) (map (\<lambda>k. rv_children inp ! k) (groupingKeys' cfg)) = batchKeys cfg inp ! r"
proof -
  show "\<forall>c\<in>set (map (\<lambda>k. rv_children inp ! k) (groupingKeys' cfg)). r < length c"
    using batchOk_key[OF assms(1)] batchOk_column[OF assms(1)] assms(2) by auto
  show "map (\<lambda>c. c ! r) (map (\<lambda>k. rv_children inp ! k) (groupingKeys' cfg)) = batchKeys cfg inp ! r"
    using assms by (simp add: batchKeys_nth keyOf_batchRows)
qed

lemma seamLoop_ok:
  assumes "batchOk cfg prev" and "batchOk cfg inp" and "0 < rv_size prev"
    and "length (inputGroups' st) = rv_size inp" and "index \<le> rv_size inp"
  shows "seamLoop cfg prev (int (rv_size prev) - 1) g inp (rv_size inp) index st =
     Inr (index + length (takeWhile (\<lambda>k. batchKeys cfg prev ! (rv_size prev - 1) = k) (drop index (batchKeys cfg inp))),
          st\<lparr>inputGroups' := take index (inputGroups' st) @
             replicate (length (takeWhile (\<lambda>k. batchKeys cfg prev ! (rv_size prev - 1) = k)
                                  (drop index (batchKeys cfg inp)))) g @
             drop (index + length (takeWhile (\<lambda>k. batchKeys cfg prev ! (rv_size prev - 1) = k)
                                  (drop index (batchKeys cfg inp)))) (inputGroups' st)\<rparr>)"
  using assms(4,5)
proof (induction "rv_size inp - index" arbitrary: index st)
  case 0
  then have "index = rv_size inp" by simp
  then show ?case
    using 0 by (subst seamLoop.simps) simp
next
  case (Suc d)
  let ?cur = "batchKeys cfg prev ! (rv_size prev - 1)"
  let ?ks = "batchKeys cfg inp"
  let ?P = "\<lambda>k. ?cur = k"
  have lt: "index < rv_size inp" using Suc.hyps(2) by simp
  have pi: "int (rv_size prev) - 1 = int (rv_size prev - 1)"
    using assms(3) by simp
  have eq: "equalKeys (groupingKeys' cfg) prev (int (rv_size prev) - 1) inp (int index) =
      Inr (?cur = ?ks ! index)"
    unfolding pi using equalKeys_ok[OF assms(1,2), of "rv_size prev - 1" index] assms(3) lt by simp
  have dr: "drop index ?ks = ?ks ! index # drop (Suc index) ?ks"
    using lt Cons_nth_drop_Suc[of index ?ks] by simp
  show ?case
  proof (cases "?cur = ?ks ! index")
    case False
    then have "takeWhile ?P (drop index ?ks) = []"
      unfolding dr by simp
    then show ?thesis
      using lt eq False by (subst seamLoop.simps) simp
  next
    case True
    let ?st = "st\<lparr>inputGroups' := (inputGroups' st)[index := g]\<rparr>"
    let ?l = "length (takeWhile ?P (drop (Suc index) ?ks))"
    have tw: "takeWhile ?P (drop index ?ks) = ?ks ! index # takeWhile ?P (drop (Suc index) ?ks)"
      unfolding dr using True by simp
    have ih: "seamLoop cfg prev (int (rv_size prev) - 1) g inp (rv_size inp) (Suc index) ?st =
      Inr (Suc index + ?l,
           ?st\<lparr>inputGroups' := take (Suc index) (inputGroups' ?st) @ replicate ?l g @
               drop (Suc index + ?l) (inputGroups' ?st)\<rparr>)"
      using Suc.hyps(1)[of "Suc index" ?st] Suc.hyps(2) Suc.prems lt by simp
    have tk: "take (Suc index) ((inputGroups' st)[index := g]) = take index (inputGroups' st) @ [g]"
      using lt Suc.prems(1) by (simp add: take_Suc_conv_app_nth)
    have "seamLoop cfg prev (int (rv_size prev) - 1) g inp (rv_size inp) index st =
        seamLoop cfg prev (int (rv_size prev) - 1) g inp (rv_size inp) (Suc index) ?st"
      using lt eq True Suc.prems(1) by (subst seamLoop.simps) simp
    then show ?thesis
      unfolding ih tw using tk by (simp add: replicate_append_same)
  qed
qed

lemma assigned_inputGroups [simp]:
  "assigned cfg (st\<lparr>inputGroups' := x\<rparr>) st1 cur ks = assigned cfg st st1 cur ks"
  by (simp add: assigned_def liveKeys_def liveAccs_def unchangedButPool_def)

lemma assigned_none: "slotsOk cfg st \<Longrightarrow> assigned cfg st st cur []"
  by (simp add: assigned_def liveAccs_def unchangedButPool_def)

lemma assigned_same:
  "assigned cfg st st1 (Some k) ks \<Longrightarrow> assigned cfg st st1 (Some k) (k # ks)"
  by (simp add: assigned_def)

lemma take_take_eq:
  "take b xs = take b ys \<Longrightarrow> a \<le> b \<Longrightarrow> take a xs = take a ys"
  by (metis min.absorb1 take_take)

lemma assigned_open:
  assumes "cur \<noteq> Some k"
    and "slotsOk cfg st0" and "numGroups' st0 = Suc (numGroups' st)"
    and "take (numGroups' st) (groups' st0) = take (numGroups' st) (groups' st)"
    and "liveKeys st0 = liveKeys st @ [k]"
    and "\<forall>i. take (numGroups' st) (accsT i (groups' st0) (rows' st0)) = liveAccs i st"
    and "unchangedButPool st st0"
    and "assigned cfg st0 st1 (Some k) ks"
  shows "assigned cfg st st1 cur (k # ks)"
proof -
  let ?n = "numGroups' st"
  have g: "take (Suc ?n) (groups' st1) = take (Suc ?n) (groups' st0)"
    using assms(8,3) by (simp add: assigned_def)
  have groups: "take ?n (groups' st1) = take ?n (groups' st)"
    using take_take_eq[OF g, of ?n] assms(4) by simp
  have accs: "take ?n (accsT i (groups' st1) (rows' st1)) = liveAccs i st" for i
  proof -
    have "take (Suc ?n) (accsT i (groups' st1) (rows' st1)) = liveAccs i st0"
      using assms(8,3) by (simp add: assigned_def)
    then have "take ?n (accsT i (groups' st1) (rows' st1)) = take ?n (liveAccs i st0)"
      by (metis le_add2 min.absorb1 plus_1_eq_Suc take_take)
    also have "\<dots> = take ?n (accsT i (groups' st0) (rows' st0))"
      using assms(3) by (simp add: liveAccs_def)
    finally show ?thesis using assms(6) by simp
  qed
  have unchanged: "unchangedButPool st st1"
    using assms(7,8) by (simp add: assigned_def unchangedButPool_def)
  show ?thesis
    using assms(1,3,5,8) groups accs unchanged by (simp add: assigned_def)
qed

lemma groupLoop_ok:
  assumes "batchOk cfg inp"
    and "slotsOk cfg st"
    and "decodedKeys' st = map (\<lambda>k. rv_children inp ! k) (groupingKeys' cfg)"
    and "length (inputGroups' st) = rv_size inp" and "i \<le> rv_size inp" and "index < i"
    and "0 < numGroups' st" and "inputGroups' st ! index = groups' st ! (numGroups' st - 1)"
  shows "\<exists>st1. groupLoop cfg inp (rv_size inp) i index st = Inr st1 \<and>
      assigned cfg st st1 (Some (batchKeys cfg inp ! index)) (drop i (batchKeys cfg inp)) \<and>
      inputGroups' st1 = take i (inputGroups' st) @
        map (\<lambda>s. groups' st1 ! s)
          (slotsFrom (Some (batchKeys cfg inp ! index)) (numGroups' st) (drop i (batchKeys cfg inp)))"
  using assms(2-8)
proof (induction "rv_size inp - i" arbitrary: i index st)
  case 0
  then have "i = rv_size inp" by simp
  then show ?case
    using 0 by (subst groupLoop.simps) (simp add: assigned_none)
next
  case (Suc d)
  let ?ks = "batchKeys cfg inp"
  let ?n = "numGroups' st"
  let ?IG = "inputGroups' st"
  have lt: "i < rv_size inp" using Suc.hyps(2) by simp
  have il: "index < rv_size inp" using lt Suc.prems(5) by simp
  have eq: "equalKeys (groupingKeys' cfg) inp (int index) inp (int i) = Inr (?ks ! index = ?ks ! i)"
    by (rule equalKeys_ok[OF assms(1) assms(1) il lt])
  have dr: "drop i ?ks = ?ks ! i # drop (Suc i) ?ks"
    using lt Cons_nth_drop_Suc[of i ?ks] by simp
  show ?case
  proof (cases "?ks ! index = ?ks ! i")
    case True
    let ?g = "?IG ! index"
    let ?st = "st\<lparr>inputGroups' := ?IG[i := ?g]\<rparr>"
    have step: "groupLoop cfg inp (rv_size inp) i index st = groupLoop cfg inp (rv_size inp) (Suc i) index ?st"
      using lt il eq True Suc.prems(3) by (subst groupLoop.simps) simp
    have pre: "inputGroups' ?st ! index = groups' ?st ! (numGroups' ?st - 1)"
      using Suc.prems(5,7) by simp
    have d: "d = rv_size inp - Suc i" using Suc.hyps(2) by simp
    have ok: "slotsOk cfg ?st" using Suc.prems(1) by (simp add: slotsOk_def)
    have h: "decodedKeys' ?st = map (\<lambda>k. rv_children inp ! k) (groupingKeys' cfg)"
      "length (inputGroups' ?st) = rv_size inp" "Suc i \<le> rv_size inp" "index < Suc i"
      "0 < numGroups' ?st"
      using Suc.prems lt by simp_all
    from Suc.hyps(1)[OF d ok h pre]
    obtain st1 where st1: "groupLoop cfg inp (rv_size inp) (Suc i) index ?st = Inr st1"
      "assigned cfg st st1 (Some (?ks ! index)) (drop (Suc i) ?ks)"
      "inputGroups' st1 = take (Suc i) (?IG[i := ?g]) @
        map (\<lambda>s. groups' st1 ! s) (slotsFrom (Some (?ks ! index)) ?n (drop (Suc i) ?ks))"
      by auto
    have as: "assigned cfg st st1 (Some (?ks ! index)) (drop i ?ks)"
      unfolding dr using st1(2) True assigned_same[of cfg st st1 "?ks ! i"] by simp
    have tk: "take (Suc i) (?IG[i := ?g]) = take i ?IG @ [?g]"
      using lt Suc.prems(3) by (simp add: take_Suc_conv_app_nth)
    have "take ?n (groups' st1) ! (?n - 1) = take ?n (groups' st) ! (?n - 1)"
      using st1(2) by (simp add: assigned_def)
    then have g: "groups' st1 ! (?n - 1) = ?g"
      using Suc.prems(6,7) by simp
    have ig: "inputGroups' st1 = take i ?IG @
        map (\<lambda>s. groups' st1 ! s) (slotsFrom (Some (?ks ! index)) ?n (drop i ?ks))"
      unfolding dr st1(3) tk using True g by simp
    show ?thesis
      using step st1(1) as ig by simp
  next
    case False
    have dec: "\<forall>c\<in>set (decodedKeys' st). i < length c"
      "map (\<lambda>c. c ! i) (decodedKeys' st) = ?ks ! i"
      using decoded_row[OF assms(1) lt] Suc.prems(2) by simp_all
    from startNewGroup_ok[OF Suc.prems(1) dec(1)]
    obtain p st0 where st0: "startNewGroup cfg i st = Inr (p, st0)" "slotsOk cfg st0"
      "numGroups' st0 = Suc ?n" "groups' st0 ! ?n = p"
      "take ?n (groups' st0) = take ?n (groups' st)"
      "liveKeys st0 = liveKeys st @ [?ks ! i]"
      "\<forall>a. take ?n (accsT a (groups' st0) (rows' st0)) = liveAccs a st"
      "inputGroups' st0 = ?IG" "unchangedButPool st st0" "decodedKeys' st0 = decodedKeys' st"
      unfolding dec(2) by blast
    let ?st = "st0\<lparr>inputGroups' := ?IG[i := p]\<rparr>"
    have step: "groupLoop cfg inp (rv_size inp) i index st = groupLoop cfg inp (rv_size inp) (Suc i) i ?st"
      using lt eq False st0(1,8) Suc.prems(3) by (subst groupLoop.simps) simp
    have dk: "decodedKeys' ?st = map (\<lambda>k. rv_children inp ! k) (groupingKeys' cfg)"
      using st0(10) Suc.prems(2) by simp
    have pre: "inputGroups' ?st ! i = groups' ?st ! (numGroups' ?st - 1)"
      using lt Suc.prems(3) st0(3,4) by simp
    have ok: "slotsOk cfg ?st"
      using st0(2) by (simp add: slotsOk_def)
    have d: "d = rv_size inp - Suc i" using Suc.hyps(2) by simp
    have h: "length (inputGroups' ?st) = rv_size inp" "Suc i \<le> rv_size inp" "i < Suc i"
      "0 < numGroups' ?st"
      using Suc.prems lt st0(3) by simp_all
    from Suc.hyps(1)[OF d ok dk h pre]
    obtain st1 where st1: "groupLoop cfg inp (rv_size inp) (Suc i) i ?st = Inr st1"
      "assigned cfg st0 st1 (Some (?ks ! i)) (drop (Suc i) ?ks)"
      "inputGroups' st1 = take (Suc i) (?IG[i := p]) @
        map (\<lambda>s. groups' st1 ! s) (slotsFrom (Some (?ks ! i)) (Suc ?n) (drop (Suc i) ?ks))"
      using st0(3) by auto
    have ne: "Some (?ks ! index) \<noteq> Some (?ks ! i)"
      using False by simp
    have as: "assigned cfg st st1 (Some (?ks ! index)) (drop i ?ks)"
      unfolding dr
      by (rule assigned_open[OF ne st0(2,3,5,6,7,9) st1(2)])
    have tk: "take (Suc i) (?IG[i := p]) = take i ?IG @ [p]"
      using lt Suc.prems(3) by (simp add: take_Suc_conv_app_nth)
    have "take (Suc ?n) (groups' st1) ! ?n = take (Suc ?n) (groups' st0) ! ?n"
      using st1(2) st0(3) by (simp add: assigned_def)
    then have g: "groups' st1 ! ?n = p"
      using st0(4) by simp
    have ig: "inputGroups' st1 = take i ?IG @
        map (\<lambda>s. groups' st1 ! s) (slotsFrom (Some (?ks ! index)) ?n (drop i ?ks))"
      unfolding dr st1(3) tk using False g by simp
    show ?thesis
      using step st1(1) as ig by simp
  qed
qed

lemma assigned_decodedKeys [simp]:
  "assigned cfg (st\<lparr>decodedKeys' := x\<rparr>) st1 cur ks = assigned cfg st st1 cur ks"
  by (simp add: assigned_def liveKeys_def liveAccs_def unchangedButPool_def)

lemma assigned_opened:
  "opened cur ks = opened cur1 ks1 \<Longrightarrow> assigned cfg st st1 cur ks = assigned cfg st st1 cur1 ks1"
  by (simp add: assigned_def)

lemma slotsFrom_takeWhile:
  "slotsFrom (Some c) n ks =
     replicate (length (takeWhile (\<lambda>k. c = k) ks)) (n - 1) @
     slotsFrom (Some c) n (dropWhile (\<lambda>k. c = k) ks)"
  by (induction ks) auto

lemma opened_dropWhile:
  "opened (Some c) ks = opened (Some c) (dropWhile (\<lambda>k. c = k) ks)"
  by (induction ks) auto

lemma drop_takeWhile_length: "drop (length (takeWhile P xs)) xs = dropWhile P xs"
  by (induction xs) auto

lemma length_slotsFrom [simp]: "length (slotsFrom cur n ks) = length ks"
  by (induction ks arbitrary: cur n) auto

lemma slotsFrom_bound:
  "s \<in> set (slotsFrom cur n ks) \<Longrightarrow> (cur = None \<longrightarrow> n = 0) \<Longrightarrow> (cur \<noteq> None \<longrightarrow> 0 < n) \<Longrightarrow>
     s < n + length (opened cur ks) \<and> n - 1 \<le> s"
proof (induction ks arbitrary: cur n s)
  case Nil
  then show ?case by simp
next
  case (Cons k ks)
  show ?case
  proof (cases "cur = Some k")
    case True
    with Cons.prems have "s = n - 1 \<or> s \<in> set (slotsFrom cur n ks)" by simp
    then show ?thesis
    proof
      assume "s = n - 1"
      then show ?thesis using True Cons.prems(3) by simp
    next
      assume "s \<in> set (slotsFrom cur n ks)"
      from Cons.IH[OF this Cons.prems(2,3)] show ?thesis using True by simp
    qed
  next
    case False
    with Cons.prems have "s = n \<or> s \<in> set (slotsFrom (Some k) (Suc n) ks)" by simp
    then show ?thesis
    proof
      assume "s = n"
      then show ?thesis using False by simp
    next
      assume "s \<in> set (slotsFrom (Some k) (Suc n) ks)"
      from Cons.IH[OF this] show ?thesis using False by auto
    qed
  qed
qed

lemma assigned_inputGroups2 [simp]:
  "assigned cfg st (st1\<lparr>inputGroups' := x\<rparr>) cur ks = assigned cfg st st1 cur ks"
  by (simp add: assigned_def liveKeys_def slotsOk_def unchangedButPool_def)

lemma length_resize [simp]: "length (resize n d xs) = n"
  by (simp add: resize_def)

lemma seam_part:
  assumes "slotsOk cfg st" and "batchOk cfg inp"
    and "\<forall>prev. prevInput' st = Some prev \<longrightarrow> batchOk cfg prev \<and> 0 < rv_size prev \<and> 0 < numGroups' st"
    and "length (inputGroups' st) = rv_size inp"
  shows "\<exists>l g. (case prevInput' st of
                      None \<Rightarrow> Inr (0, st)
                    | Some prev \<Rightarrow>
                        let prevIndex = int (rv_size prev) - 1
                        in bindE (nthE GroupOutOfRange (groups' st) (int (numGroups' st) - 1))
                             (\<lambda>prevGroup.
                                seamLoop cfg prev prevIndex prevGroup inp (rv_size inp) 0 st)) =
            Inr (l, st\<lparr>inputGroups' := replicate l g @ drop l (inputGroups' st)\<rparr>) \<and>
         l \<le> rv_size inp \<and>
         slotsFrom (lastKey cfg (prevInput' st)) (numGroups' st) (batchKeys cfg inp) =
           replicate l (numGroups' st - 1) @
           slotsFrom (lastKey cfg (prevInput' st)) (numGroups' st) (drop l (batchKeys cfg inp)) \<and>
         opened (lastKey cfg (prevInput' st)) (batchKeys cfg inp) =
           opened (lastKey cfg (prevInput' st)) (drop l (batchKeys cfg inp)) \<and>
         (l < rv_size inp \<longrightarrow> lastKey cfg (prevInput' st) \<noteq> Some (batchKeys cfg inp ! l)) \<and>
         (0 < l \<longrightarrow> g = groups' st ! (numGroups' st - 1) \<and> 0 < numGroups' st)"
proof (cases "prevInput' st")
  case None
  then show ?thesis
    by (intro exI[of _ 0] exI[of _ None]) (simp add: lastKey_def)
next
  case (Some prev)
  let ?ks = "batchKeys cfg inp"
  let ?c = "batchKeys cfg prev ! (rv_size prev - 1)"
  let ?P = "\<lambda>k. ?c = k"
  let ?l = "length (takeWhile ?P ?ks)"
  let ?g = "groups' st ! (numGroups' st - 1)"
  from Some assms(3) have prev: "batchOk cfg prev" "0 < rv_size prev" "0 < numGroups' st"
    by simp_all
  have n: "numGroups' st \<le> length (groups' st)"
    using assms(1) by (simp add: slotsOk_def)
  have rd: "nthE GroupOutOfRange (groups' st) (int (numGroups' st) - 1) = Inr ?g"
  proof -
    have "nat (int (numGroups' st) - 1) = numGroups' st - 1"
      using prev(3) by arith
    then show ?thesis
      using prev(3) n by (simp add: nthE_def)
  qed
  have lk: "lastKey cfg (prevInput' st) = Some ?c"
    using Some prev(2) by (simp add: lastKey_def batchKeys_nth)
  have loop: "seamLoop cfg prev (int (rv_size prev) - 1) ?g inp (rv_size inp) 0 st =
      Inr (?l, st\<lparr>inputGroups' := replicate ?l ?g @ drop ?l (inputGroups' st)\<rparr>)"
    using seamLoop_ok[OF prev(1) assms(2) prev(2) assms(4), of 0 ?g] by simp
  have le: "?l \<le> rv_size inp"
    using length_takeWhile_le[of ?P ?ks] by simp
  have dr: "drop ?l ?ks = dropWhile ?P ?ks"
    by (rule drop_takeWhile_length)
  have ne: "?l < rv_size inp \<longrightarrow> Some ?c \<noteq> Some (?ks ! ?l)"
    using nth_length_takeWhile[of ?P ?ks] by simp
  have sf: "slotsFrom (Some ?c) (numGroups' st) ?ks =
      replicate ?l (numGroups' st - 1) @ slotsFrom (Some ?c) (numGroups' st) (drop ?l ?ks)"
    unfolding dr by (rule slotsFrom_takeWhile)
  have op: "opened (Some ?c) ?ks = opened (Some ?c) (drop ?l ?ks)"
    unfolding dr by (rule opened_dropWhile)
  have run: "(case prevInput' st of
                      None \<Rightarrow> Inr (0, st)
                    | Some prev \<Rightarrow>
                        let prevIndex = int (rv_size prev) - 1
                        in bindE (nthE GroupOutOfRange (groups' st) (int (numGroups' st) - 1))
                             (\<lambda>prevGroup.
                                seamLoop cfg prev prevIndex prevGroup inp (rv_size inp) 0 st)) =
            Inr (?l, st\<lparr>inputGroups' := replicate ?l ?g @ drop ?l (inputGroups' st)\<rparr>)"
    unfolding Some by (simp only: option.case Let_def rd bindE_Inr loop)
  show ?thesis
    unfolding lk
    apply (rule exI[of _ ?l])
    apply (rule exI[of _ ?g])
    apply (intro conjI)
         apply (rule run)
        apply (rule le)
       apply (rule sf)
      apply (rule op)
     apply (rule ne)
    using prev(3) apply simp
    done
qed


lemma slotsOk_inputGroups [simp]: "slotsOk cfg (st\<lparr>inputGroups' := x\<rparr>) = slotsOk cfg st"
  by (simp add: slotsOk_def)

lemma slotsOk_decodedKeys:
  "slotsOk cfg st \<Longrightarrow> length x = length (groupingKeys' cfg) \<Longrightarrow>
     slotsOk cfg (st\<lparr>decodedKeys' := x\<rparr>)"
  by (simp add: slotsOk_def)

lemma assignGroups_ok:
  assumes "slotsOk cfg st" and "input' st = Some inp" and "batchOk cfg inp"
    and "\<forall>prev. prevInput' st = Some prev \<longrightarrow> batchOk cfg prev \<and> 0 < rv_size prev \<and> 0 < numGroups' st"
  shows "\<exists>st1. assignGroups cfg st = Inr st1 \<and>
      assigned cfg st st1 (lastKey cfg (prevInput' st)) (batchKeys cfg inp) \<and>
      inputGroups' st1 = map (\<lambda>s. groups' st1 ! s)
         (slotsFrom (lastKey cfg (prevInput' st)) (numGroups' st) (batchKeys cfg inp))"
proof -
  let ?n = "rv_size inp"
  let ?G = "numGroups' st"
  let ?ks = "batchKeys cfg inp"
  let ?cur = "lastKey cfg (prevInput' st)"
  let ?IG0 = "resize ?n None (inputGroups' st)"
  let ?st1 = "st\<lparr>inputGroups' := ?IG0\<rparr>"
  let ?D = "map (\<lambda>k. rv_children inp ! k) (groupingKeys' cfg)"
  have lks: "length ?ks = ?n" by (simp add: length_batchKeys)
  define st1 where "st1 = st\<lparr>inputGroups' := ?IG0\<rparr>"
  have ok1: "slotsOk cfg st1" using assms(1) by (simp add: st1_def)
  have pre1: "\<forall>prev. prevInput' st1 = Some prev \<longrightarrow>
      batchOk cfg prev \<and> 0 < rv_size prev \<and> 0 < numGroups' st1"
    using assms(4) by (simp add: st1_def)
  have len1: "length (inputGroups' st1) = ?n" by (simp add: st1_def)
  from seam_part[OF ok1 assms(3) pre1 len1]
  obtain l g where seam: "(case prevInput' st1 of
                      None \<Rightarrow> Inr (0, st1)
                    | Some prev \<Rightarrow>
                        let prevIndex = int (rv_size prev) - 1
                        in bindE (nthE GroupOutOfRange (groups' st1) (int (numGroups' st1) - 1))
                             (\<lambda>prevGroup.
                                seamLoop cfg prev prevIndex prevGroup inp ?n 0 st1)) =
            Inr (l, st1\<lparr>inputGroups' := replicate l g @ drop l (inputGroups' st1)\<rparr>)"
    and le: "l \<le> ?n"
    and sf1: "slotsFrom (lastKey cfg (prevInput' st1)) (numGroups' st1) ?ks =
        replicate l (numGroups' st1 - 1) @
        slotsFrom (lastKey cfg (prevInput' st1)) (numGroups' st1) (drop l ?ks)"
    and op1: "opened (lastKey cfg (prevInput' st1)) ?ks =
        opened (lastKey cfg (prevInput' st1)) (drop l ?ks)"
    and ne1: "l < ?n \<longrightarrow> lastKey cfg (prevInput' st1) \<noteq> Some (?ks ! l)"
    and gg1: "0 < l \<longrightarrow> g = groups' st1 ! (numGroups' st1 - 1) \<and> 0 < numGroups' st1"
    by (elim exE conjE) (rule that)
  have sel: "prevInput' st1 = prevInput' st" "numGroups' st1 = ?G" "groups' st1 = groups' st"
    by (simp_all add: st1_def)
  note sf = sf1[unfolded sel] and op = op1[unfolded sel] and ne = ne1[unfolded sel]
    and gg = gg1[unfolded sel]
  let ?IG2 = "replicate l g @ drop l ?IG0"
  let ?st2 = "st\<lparr>inputGroups' := ?IG2\<rparr>"
  have st2: "st1\<lparr>inputGroups' := replicate l g @ drop l (inputGroups' st1)\<rparr> = ?st2"
    by (simp add: st1_def)
  have len2: "length ?IG2 = ?n" using le by simp
  have run: "assignGroups cfg st =
      (if l < ?n then
         bindE (decodeKeys cfg inp ?st2) (\<lambda>st3.
         bindE (startNewGroup cfg l st3) (\<lambda>(newGroup, st4).
         bindE (assignAt GroupOutOfRange (inputGroups' st4) l newGroup) (\<lambda>gs.
           groupLoop cfg inp ?n (l + 1) l (st4\<lparr>inputGroups' := gs\<rparr>))))
       else Inr ?st2)"
    unfolding assignGroups_def assms(2) option.case Let_def st1_def[symmetric] seam[unfolded Let_def] st2 bindE_Inr prod.case ..
  show ?thesis
  proof (cases "l < ?n")
    case False
    then have l: "l = ?n" using le by simp
    have r: "assignGroups cfg st = Inr ?st2"
      using run False by simp
    have "opened ?cur ?ks = []"
      using op l lks by simp
    then have a: "assigned cfg st ?st2 ?cur ?ks"
      using assigned_none[OF assms(1), of ?cur] assigned_opened[of ?cur ?ks ?cur "[]" cfg st st]
      by simp
    have "slotsFrom ?cur ?G ?ks = replicate l (?G - 1)"
      using sf l lks by simp
    moreover have "replicate l g = replicate l (groups' st ! (?G - 1))"
      using gg by (cases "l = 0") simp_all
    ultimately have b: "inputGroups' ?st2 = map (\<lambda>s. groups' ?st2 ! s) (slotsFrom ?cur ?G ?ks)"
      using l by simp
    show ?thesis
      using r a b by blast
  next
    case True
    let ?st3 = "?st2\<lparr>decodedKeys' := ?D\<rparr>"
    have dlen: "length (decodedKeys' ?st2) = length (groupingKeys' cfg)"
      using assms(1) by (simp add: slotsOk_def)
    have dec: "decodeKeys cfg inp ?st2 = Inr ?st3"
      by (rule decodeKeys_ok[OF assms(3) dlen])
    have ok3: "slotsOk cfg ?st3"
      using assms(1) by (intro slotsOk_decodedKeys) simp_all
    have rows3: "\<forall>c\<in>set (decodedKeys' ?st3). l < length c"
      using decoded_row(1)[OF assms(3) True] by simp
    from startNewGroup_ok[OF ok3 rows3]
    obtain p st4 where new: "startNewGroup cfg l ?st3 = Inr (p, st4)"
      and st4: "slotsOk cfg st4" "numGroups' st4 = Suc ?G" "groups' st4 ! ?G = p"
        "take ?G (groups' st4) = take ?G (groups' st)"
        "liveKeys st4 = liveKeys ?st3 @ [map (\<lambda>c. c ! l) ?D]"
        "\<forall>i. take ?G (accsT i (groups' st4) (rows' st4)) = liveAccs i ?st3"
        "inputGroups' st4 = ?IG2" "unchangedButPool ?st3 st4" "decodedKeys' st4 = ?D"
      by auto
    let ?gs = "?IG2[l := p]"
    let ?st5 = "st4\<lparr>inputGroups' := ?gs\<rparr>"
    have asg: "assignAt GroupOutOfRange (inputGroups' st4) l p = Inr ?gs"
      using st4(7) True len2 by simp
    have r: "assignGroups cfg st = groupLoop cfg inp ?n (Suc l) l ?st5"
      using run True dec new asg by simp
    have ok5: "slotsOk cfg ?st5" using st4(1) by simp
    have d5: "decodedKeys' ?st5 = ?D" using st4(9) by simp
    have len5: "length (inputGroups' ?st5) = ?n" using len2 by simp
    have n5: "0 < numGroups' ?st5" using st4(2) by simp
    have at5: "inputGroups' ?st5 ! l = groups' ?st5 ! (numGroups' ?st5 - 1)"
      using st4(2,3) True len2 by simp
    have sl: "Suc l \<le> ?n" using True by simp
    from groupLoop_ok[OF assms(3) ok5 d5 len5 sl _ n5 at5]
    obtain st6 where loop: "groupLoop cfg inp ?n (Suc l) l ?st5 = Inr st6"
      and a6: "assigned cfg ?st5 st6 (Some (?ks ! l)) (drop (Suc l) ?ks)"
      and ig6: "inputGroups' st6 = take (Suc l) (inputGroups' ?st5) @
          map (\<lambda>s. groups' st6 ! s)
            (slotsFrom (Some (?ks ! l)) (numGroups' ?st5) (drop (Suc l) ?ks))"
      by auto
    have a46: "assigned cfg st4 st6 (Some (?ks ! l)) (drop (Suc l) ?ks)"
      using a6 by simp
    have key: "map (\<lambda>c. c ! l) ?D = ?ks ! l"
      by (rule decoded_row(2)[OF assms(3) True])
    have lk4: "liveKeys st4 = liveKeys st @ [?ks ! l]"
      using st4(5) key by (simp add: liveKeys_def)
    have la4: "\<forall>i. take ?G (accsT i (groups' st4) (rows' st4)) = liveAccs i st"
      using st4(6) by (simp add: liveAccs_def)
    have un4: "unchangedButPool st st4"
      using st4(8) by (simp add: unchangedButPool_def)
    have cur: "?cur \<noteq> Some (?ks ! l)" using ne True by simp
    have dl: "drop l ?ks = ?ks ! l # drop (Suc l) ?ks"
      using True lks by (simp add: Cons_nth_drop_Suc)
    have "assigned cfg st st6 ?cur (?ks ! l # drop (Suc l) ?ks)"
      by (rule assigned_open[OF cur st4(1) st4(2) st4(4) lk4 la4 un4 a46])
    then have a: "assigned cfg st st6 ?cur ?ks"
      using assigned_opened[OF op, of cfg st st6] dl by simp
    have g6: "take (Suc ?G) (groups' st6) = take (Suc ?G) (groups' st4)"
      using a46 st4(2) by (simp add: assigned_def)
    have p6: "groups' st6 ! ?G = p"
    proof -
      have "groups' st6 ! ?G = take (Suc ?G) (groups' st6) ! ?G" by simp
      also have "\<dots> = take (Suc ?G) (groups' st4) ! ?G" by (simp only: g6)
      also have "\<dots> = p" using st4(3) by simp
      finally show ?thesis .
    qed
    have g0: "take ?G (groups' st6) = take ?G (groups' st)"
      using a by (simp add: assigned_def)
    have rep: "replicate l g = replicate l (groups' st6 ! (?G - 1))"
    proof (cases "l = 0")
      case True
      then show ?thesis by simp
    next
      case False
      then have g: "g = groups' st ! (?G - 1)" and pos: "0 < ?G" using gg by simp_all
      have "groups' st6 ! (?G - 1) = take ?G (groups' st6) ! (?G - 1)" using pos by simp
      also have "\<dots> = take ?G (groups' st) ! (?G - 1)" by (simp only: g0)
      also have "\<dots> = groups' st ! (?G - 1)" using pos by simp
      finally show ?thesis using g by simp
    qed
    have tk: "take (Suc l) ?gs = replicate l g @ [p]"
      using True len2 by (simp add: take_Suc_conv_app_nth)
    have "slotsFrom ?cur ?G ?ks =
        replicate l (?G - 1) @ ?G # slotsFrom (Some (?ks ! l)) (Suc ?G) (drop (Suc l) ?ks)"
      using sf dl cur by simp
    then have b: "inputGroups' st6 = map (\<lambda>s. groups' st6 ! s) (slotsFrom ?cur ?G ?ks)"
      using ig6 tk rep p6 st4(2) by simp
    show ?thesis
      using r loop a b by simp
  qed
qed

section \<open>Processing a batch\<close>

lemma slotsFrom_less:
  "s \<in> set (slotsFrom cur n ks) \<Longrightarrow> (cur \<noteq> None \<longrightarrow> 0 < n) \<Longrightarrow> s < n + length (opened cur ks)"
proof (induction ks arbitrary: cur n s)
  case Nil
  then show ?case by simp
next
  case (Cons k ks)
  show ?case
  proof (cases "cur = Some k")
    case True
    then show ?thesis using Cons.prems Cons.IH[of s cur n] by auto
  next
    case False
    then show ?thesis using Cons.prems Cons.IH[of s "Some k" "Suc n"] by auto
  qed
qed

lemma take_absorbInto:
  "\<forall>s\<in>set (map fst sr). s < N \<Longrightarrow> take N (absorbInto cfg i A sr) = absorbInto cfg i (take N A) sr"
proof (induction sr arbitrary: A)
  case Nil
  then show ?case by (simp add: absorbInto_def)
next
  case (Cons x sr)
  obtain s row where x: "x = (s, row)" by (cases x)
  have s: "s < N" using Cons.prems x by simp
  have rest: "\<forall>s\<in>set (map fst sr). s < N" using Cons.prems by simp
  have "take N (absorbInto cfg i A (x # sr)) =
      take N (absorbInto cfg i (A[s := map_option (\<lambda>a. stepAcc cfg i a row) (A ! s)]) sr)"
    by (simp add: absorbInto_def x)
  also have "\<dots> = absorbInto cfg i (take N (A[s := map_option (\<lambda>a. stepAcc cfg i a row) (A ! s)])) sr"
    by (rule Cons.IH[OF rest])
  also have "take N (A[s := map_option (\<lambda>a. stepAcc cfg i a row) (A ! s)]) =
      (take N A)[s := map_option (\<lambda>a. stepAcc cfg i a row) (take N A ! s)]"
    using s by (simp add: take_update_swap)
  also have "absorbInto cfg i \<dots> sr = absorbInto cfg i (take N A) (x # sr)"
    by (simp add: absorbInto_def x)
  finally show ?case .
qed

lemma take_overwrite:
  "a \<le> b \<Longrightarrow> b \<le> length xs \<Longrightarrow> take b (overwrite a b v xs) = take a xs @ replicate (b - a) v"
  by (rule nth_equalityI) (auto simp: nth_overwrite nth_append)

lemma liveInit_accs:
  assumes "slotsOk cfg st" and "\<forall>j<numGroups' st. initializedRow (slotRow st j)"
    and "i < length (aggregates' cfg)" and "j < numGroups' st"
  shows "accsT i (groups' st) (rows' st) ! j \<noteq> None"
proof -
  have jl: "j < length (groups' st)" using assms(1,4) by (simp add: slotsOk_def)
  have "rowShaped cfg (slotRow st j)"
    using slot_valid[OF assms(1) jl] by simp
  then have "i < length (rowAccs (slotRow st j))"
    using assms(3) by (simp add: rowShaped_def)
  moreover have "initializedRow (slotRow st j)" using assms(2,4) by simp
  ultimately have "rowAccs (slotRow st j) ! i \<noteq> None"
    by (simp add: initializedRow_def list_all_length)
  then show ?thesis
    using jl by (simp add: accsT_nth slotRow_def)
qed

lemma slotsOk_inputRows [simp]: "slotsOk cfg (st\<lparr>inputRows' := x\<rparr>) = slotsOk cfg st"
  by (simp add: slotsOk_def)

lemma slotsOk_maskedRows [simp]: "slotsOk cfg (st\<lparr>maskedRows' := x\<rparr>) = slotsOk cfg st"
  by (simp add: slotsOk_def)

lemma processInput_steps:
  assumes cfg: "configOk cfg" and b: "batchOk cfg inp" and ok: "slotsOk cfg st"
    and inp: "input' st = Some inp"
    and seam: "\<forall>prev. prevInput' st = Some prev \<longrightarrow> batchOk cfg prev \<and> 0 < rv_size prev \<and> 0 < numGroups' st"
    and init: "\<forall>j<numGroups' st. initializedRow (slotRow st j)"
  defines "cur \<equiv> lastKey cfg (prevInput' st)"
    and "ks \<equiv> batchKeys cfg inp"
    and "M \<equiv> map (\<lambda>m. map_option (\<lambda>channel. map (\<lambda>r. rv_children inp ! channel ! r = Some 1)
                                          [0..<rv_size inp]) m) (maskChannels' cfg)"
  shows "\<exists>st3 rc4 rc5.
      masksAddInput (maskChannels' cfg) inp (replicate (rv_size inp) True) = Inr M \<and>
      assignGroups cfg (st\<lparr>inputRows' := replicate (rv_size inp) True, maskedRows' := M\<rparr>) = Inr st3 \<and>
      slotsOk cfg st3 \<and> numGroups' st3 = numGroups' st + length (opened cur ks) \<and>
      take (numGroups' st) (groups' st3) = take (numGroups' st) (groups' st) \<and>
      inputGroups' st3 = map (\<lambda>s. groups' st3 ! s) (slotsFrom cur (numGroups' st) ks) \<and>
      inputRows' st3 = replicate (rv_size inp) True \<and> maskedRows' st3 = M \<and>
      input' st3 = Some inp \<and> prevInput' st3 = prevInput' st \<and> noMoreInput' st3 = noMoreInput' st \<and>
      calls' st3 = calls' st \<and>
      foldE (initializeAggregateGroups cfg [numGroups' st..<numGroups' st3])
        [0..<length (aggregates' cfg)] st3 =
        Inr (st3\<lparr>rows' := rc4,
               calls' := calls' st @ map (\<lambda>i. InitializeNewGroups i (groups' st3) [numGroups' st..<numGroups' st3])
                                      [0..<length (aggregates' cfg)]\<rparr>) \<and>
      evaluateAggregates cfg
        (st3\<lparr>rows' := rc4,
             calls' := calls' st @ map (\<lambda>i. InitializeNewGroups i (groups' st3) [numGroups' st..<numGroups' st3])
                                      [0..<length (aggregates' cfg)]\<rparr>) =
        Inr (st3\<lparr>rows' := rc5,
               calls' := calls' st @
                 map (\<lambda>i. InitializeNewGroups i (groups' st3) [numGroups' st..<numGroups' st3])
                   [0..<length (aggregates' cfg)] @
                 map (updateCall cfg inp (inputGroups' st3)) [0..<length (aggregates' cfg)]\<rparr>) \<and>
      processInput cfg inp st =
        Inr (st3\<lparr>rows' := rc5,
               calls' := calls' st @
                 map (\<lambda>i. InitializeNewGroups i (groups' st3) [numGroups' st..<numGroups' st3])
                   [0..<length (aggregates' cfg)] @
                 map (updateCall cfg inp (inputGroups' st3)) [0..<length (aggregates' cfg)]\<rparr>) \<and>
      poolOk cfg (groups' st3) rc5 \<and>
      take (numGroups' st3) (keysT (groups' st3) rc5) = liveKeys st @ opened cur ks \<and>
      (\<forall>i<length (aggregates' cfg).
         take (numGroups' st3) (accsT i (groups' st3) rc5) =
           absorbInto cfg i
             (liveAccs i st @ replicate (length (opened cur ks)) (Some (initialValue (aggregates' cfg ! i))))
             (zip (slotsFrom cur (numGroups' st) ks) (batchRows inp)))"
proof -
  let ?n = "rv_size inp"
  let ?P = "numGroups' st"
  let ?m = "length (aggregates' cfg)"
  let ?slots = "slotsFrom cur ?P ks"
  define st2 where "st2 = st\<lparr>inputRows' := replicate ?n True, maskedRows' := M\<rparr>"
  have masks: "masksAddInput (maskChannels' cfg) inp (replicate ?n True) = Inr M"
    unfolding M_def by (rule masksAddInput_ok[OF b])
  have sel2: "prevInput' st2 = prevInput' st" "numGroups' st2 = ?P" "input' st2 = Some inp"
      "inputRows' st2 = replicate ?n True" "maskedRows' st2 = M" "calls' st2 = calls' st"
      "noMoreInput' st2 = noMoreInput' st" "groups' st2 = groups' st" "rows' st2 = rows' st"
    using inp by (simp_all add: st2_def)
  have ok2: "slotsOk cfg st2" using ok by (simp add: st2_def)
  have seam2: "\<forall>prev. prevInput' st2 = Some prev \<longrightarrow>
      batchOk cfg prev \<and> 0 < rv_size prev \<and> 0 < numGroups' st2"
    using seam by (simp add: sel2)
  from assignGroups_ok[OF ok2 sel2(3) b seam2]
  obtain st3 where run3: "assignGroups cfg st2 = Inr st3"
    and a23: "assigned cfg st2 st3 (lastKey cfg (prevInput' st2)) (batchKeys cfg inp)"
    and ig3: "inputGroups' st3 = map (\<lambda>s. groups' st3 ! s)
         (slotsFrom (lastKey cfg (prevInput' st2)) (numGroups' st2) (batchKeys cfg inp))"
    by (elim exE conjE)
  have lk2: "liveKeys st2 = liveKeys st" and la2: "\<And>a. liveAccs a st2 = liveAccs a st"
    by (simp_all add: liveKeys_def liveAccs_def sel2)
  note a3 = a23[unfolded assigned_def sel2 lk2 la2 cur_def[symmetric] ks_def[symmetric]]
  have ig: "inputGroups' st3 = map (\<lambda>s. groups' st3 ! s) ?slots"
    using ig3 by (simp add: sel2 cur_def ks_def)
  have ok3: "slotsOk cfg st3" and N: "numGroups' st3 = ?P + length (opened cur ks)"
    and g3: "take ?P (groups' st3) = take ?P (groups' st)"
    and k3: "liveKeys st3 = liveKeys st @ opened cur ks"
    and acc3: "\<And>a. take ?P (accsT a (groups' st3) (rows' st3)) = liveAccs a st"
    using a3 by simp_all
  have un3: "inputRows' st3 = replicate ?n True" "maskedRows' st3 = M" "input' st3 = Some inp"
      "prevInput' st3 = prevInput' st" "noMoreInput' st3 = noMoreInput' st" "calls' st3 = calls' st"
    using a23 by (simp_all add: assigned_def unchangedButPool_def sel2)
  let ?N = "numGroups' st3"
  let ?inits = "map (\<lambda>i. InitializeNewGroups i (groups' st3) [?P..<?N]) [0..<?m]"
  have pool3: "poolOk cfg (groups' st3) (rows' st3)" and Nl: "?N \<le> length (groups' st3)"
    using ok3 by (simp_all add: slotsOk_pool)
  have PN: "?P \<le> ?N" using N by simp
  from initializeGroups_prefix[OF pool3 PN Nl order_refl]
  obtain rc4 where run4: "foldE (initializeAggregateGroups cfg [?P..<?N]) [0..<?m] st3 =
        Inr (st3\<lparr>rows' := rc4, calls' := calls' st3 @ ?inits\<rparr>)"
    and pool4: "poolOk cfg (groups' st3) rc4"
    and k4: "keysT (groups' st3) rc4 = keysT (groups' st3) (rows' st3)"
    and acc4: "\<forall>i<?m. accsT i (groups' st3) rc4 =
         overwrite ?P ?N (Some (initialValue (aggregates' cfg ! i))) (accsT i (groups' st3) (rows' st3))"
    by (elim exE conjE)
  define st4 where "st4 = st3\<lparr>rows' := rc4, calls' := calls' st @ ?inits\<rparr>"
  have sel4: "input' st4 = Some inp" "inputRows' st4 = replicate ?n True" "maskedRows' st4 = M"
      "groups' st4 = groups' st3" "rows' st4 = rc4" "inputGroups' st4 = inputGroups' st3"
      "calls' st4 = calls' st @ ?inits"
    using un3 by (simp_all add: st4_def)
  have len: "length ?slots = ?n" by (simp add: ks_def)
  have curP: "cur \<noteq> None \<longrightarrow> 0 < ?P"
    using seam by (auto simp: cur_def lastKey_def split: option.splits)
  have bound: "\<forall>s\<in>set ?slots. s < ?N"
    using slotsFrom_less[OF _ curP] N by simp
  have inrange: "\<forall>s\<in>set ?slots. s < length (groups' st4)"
    using bound Nl by (auto simp: sel4)
  have written: "\<forall>i<?m. \<forall>s\<in>set ?slots. accsT i (groups' st4) (rows' st4) ! s \<noteq> None"
  proof (intro allI impI ballI)
    fix i s assume i: "i < ?m" and s: "s \<in> set ?slots"
    have sN: "s < ?N" using bound s by simp
    then have sl: "s < length (accsT i (groups' st3) (rows' st3))" using Nl by simp
    show "accsT i (groups' st4) (rows' st4) ! s \<noteq> None"
    proof (cases "?P \<le> s")
      case True
      then show ?thesis
        using acc4 i sN sl by (simp add: sel4 nth_overwrite)
    next
      case False
      then have sP: "s < ?P" by simp
      have "accsT i (groups' st3) (rows' st3) ! s = take ?P (accsT i (groups' st3) (rows' st3)) ! s"
        using sP by simp
      also have "\<dots> = liveAccs i st ! s" by (simp only: acc3)
      also have "\<dots> = accsT i (groups' st) (rows' st) ! s"
        using sP by (simp add: liveAccs_def)
      also have "\<dots> \<noteq> None"
        by (rule liveInit_accs[OF ok init i sP])
      finally show ?thesis
        using acc4 i sP sl by (simp add: sel4 nth_overwrite)
    qed
  qed
  have M4: "maskedRows' st4 = map (\<lambda>m. map_option (\<lambda>channel. map (\<lambda>r. rv_children inp ! channel ! r = Some 1)
                                          [0..<rv_size inp]) m) (maskChannels' cfg)"
    using sel4(3) by (simp add: M_def)
  have pool4': "poolOk cfg (groups' st4) (rows' st4)" using pool4 by (simp add: sel4)
  have ig4: "inputGroups' st4 = map (\<lambda>s. groups' st4 ! s) ?slots" using ig by (simp add: sel4)
  from evaluateAggregates_prefix[OF cfg b sel4(1) sel4(2) M4 pool4' len ig4 inrange written order_refl]
  obtain rc5 where run5: "foldE (evaluateAggregate cfg) [0..<?m] st4 =
        Inr (st4\<lparr>rows' := rc5, calls' := calls' st4 @ map (updateCall cfg inp (inputGroups' st4)) [0..<?m]\<rparr>)"
    and pool5: "poolOk cfg (groups' st4) rc5"
    and k5: "keysT (groups' st4) rc5 = keysT (groups' st4) (rows' st4)"
    and acc5: "\<forall>i<?m. accsT i (groups' st4) rc5 =
         absorbInto cfg i (accsT i (groups' st4) (rows' st4)) (zip ?slots (batchRows inp))"
    by (elim exE conjE)
  let ?st5 = "st3\<lparr>rows' := rc5,
               calls' := calls' st @ ?inits @ map (updateCall cfg inp (inputGroups' st3)) [0..<?m]\<rparr>"
  have st5: "st4\<lparr>rows' := rc5, calls' := calls' st4 @ map (updateCall cfg inp (inputGroups' st4)) [0..<?m]\<rparr> = ?st5"
    by (simp add: st4_def)
  have run4': "foldE (initializeAggregateGroups cfg [?P..<?N]) [0..<?m] st3 = Inr st4"
    using run4 un3(6) by (simp add: st4_def)
  have run5': "evaluateAggregates cfg st4 = Inr ?st5"
    using run5 st5 by (simp add: evaluateAggregates_def)
  have new: "[?P..<?P + (?N - ?P)] = [?P..<?N]" using PN by simp
  have run: "processInput cfg inp st = Inr ?st5"
    unfolding processInput_def Let_def
    by (simp add: masks st2_def[symmetric] sel2 run3 new run4' run5' del: upt_Suc)
  have keys: "take ?N (keysT (groups' st3) rc5) = liveKeys st @ opened cur ks"
    using k5 k4 k3 by (simp add: sel4 liveKeys_def)
  have accs: "take ?N (accsT i (groups' st3) rc5) =
           absorbInto cfg i
             (liveAccs i st @ replicate (length (opened cur ks)) (Some (initialValue (aggregates' cfg ! i))))
             (zip ?slots (batchRows inp))" if i: "i < ?m" for i
  proof -
    let ?v = "Some (initialValue (aggregates' cfg ! i))"
    let ?A3 = "accsT i (groups' st3) (rows' st3)"
    have fs: "\<forall>s\<in>set (map fst (zip ?slots (batchRows inp))). s < ?N"
      using bound len by (simp add: map_fst_zip)
    have "take ?N (accsT i (groups' st3) rc5) =
        take ?N (absorbInto cfg i (overwrite ?P ?N ?v ?A3) (zip ?slots (batchRows inp)))"
      using acc5 acc4 i by (simp add: sel4)
    also have "\<dots> = absorbInto cfg i (take ?N (overwrite ?P ?N ?v ?A3)) (zip ?slots (batchRows inp))"
      by (rule take_absorbInto[OF fs])
    also have "take ?N (overwrite ?P ?N ?v ?A3) = take ?P ?A3 @ replicate (?N - ?P) ?v"
      using PN Nl by (simp add: take_overwrite)
    also have "\<dots> = liveAccs i st @ replicate (length (opened cur ks)) ?v"
      using acc3 N by simp
    finally show ?thesis .
  qed
  show ?thesis
    apply (rule exI[of _ st3])
    apply (rule exI[of _ rc4])
    apply (rule exI[of _ rc5])
    apply (intro conjI)
    subgoal by (rule masks)
    subgoal using run3 by (simp add: st2_def)
    subgoal by (rule ok3)
    subgoal by (rule N)
    subgoal by (rule g3)
    subgoal by (rule ig)
    subgoal by (rule un3)
    subgoal by (rule un3)
    subgoal by (rule un3)
    subgoal by (rule un3)
    subgoal by (rule un3)
    subgoal by (rule un3)
    subgoal using run4' by (simp add: st4_def)
    subgoal using run5' by (simp add: st4_def)
    subgoal by (rule run)
    subgoal using pool5 by (simp add: sel4)
    subgoal by (rule keys)
    subgoal using accs by blast
    done
qed

section \<open>The order of the kernel calls\<close>

lemma pendingOk_steps:
  assumes "pendingOk cfg inp st"
  shows "configOk cfg" and "batchOk cfg inp" and "slotsOk cfg st" and "input' st = Some inp"
    and "\<forall>prev. prevInput' st = Some prev \<longrightarrow> batchOk cfg prev \<and> 0 < rv_size prev \<and> 0 < numGroups' st"
    and "\<forall>j<numGroups' st. initializedRow (slotRow st j)"
  using assms by (auto simp add: pendingOk_def seamOk_def liveRows_def list_all_length)

text \<open>The definitions that evaluate the readiness of a concrete state.\<close>

lemmas readyDefs =
  pendingOk_def seamOk_def configOk_def batchOk_def slotsOk_def liveRows_def slotRow_def
  initializedRow_def validPtr_def rowShaped_def maskedConfig_def maskedBatch_def

text \<open>
  C3. When \<^verbatim>\<open>getOutput()\<close> processes a pending batch, the assignment of the rows
  to groups comes first and calls no kernel: after it every row of the batch has
  the pointer of its slot, and the groups the batch opened are the slots
  \<open>[prevNumGroups, numGroups)\<close>. Then every aggregate gets one
  \<^verbatim>\<open>initializeNewGroups\<close> call, with exactly these slots, and only then one update
  call each: the calls of the batch are the initializations, one per aggregate,
  followed by the updates, one per aggregate.
\<close>

theorem processInput_initializes_first:
  assumes "pendingOk cfg inp st"
  shows "\<exists>masked st1 st2 st3.
      masksAddInput (maskChannels' cfg) inp (replicate (rv_size inp) True) = Inr masked \<and>
      assignGroups cfg (st\<lparr>inputRows' := replicate (rv_size inp) True, maskedRows' := masked\<rparr>) = Inr st1 \<and>
      foldE (initializeAggregateGroups cfg [numGroups' st..<numGroups' st1])
        [0..<length (aggregates' cfg)] st1 = Inr st2 \<and>
      evaluateAggregates cfg st2 = Inr st3 \<and>
      processInput cfg inp st = Inr st3 \<and>
      calls' st1 = calls' st \<and>
      numGroups' st1 = numGroups' st + length (opened (lastKey cfg (prevInput' st)) (batchKeys cfg inp)) \<and>
      length (inputGroups' st1) = rv_size inp \<and>
      inputGroups' st1 = map (\<lambda>s. groups' st1 ! s)
        (slotsFrom (lastKey cfg (prevInput' st)) (numGroups' st) (batchKeys cfg inp)) \<and>
      (\<forall>s\<in>set (slotsFrom (lastKey cfg (prevInput' st)) (numGroups' st) (batchKeys cfg inp)).
          s < numGroups' st1) \<and>
      calls' st2 = calls' st @
        map (\<lambda>i. InitializeNewGroups i (groups' st1) [numGroups' st..<numGroups' st1])
          [0..<length (aggregates' cfg)] \<and>
      calls' st3 = calls' st2 @
        map (updateCall cfg inp (inputGroups' st1)) [0..<length (aggregates' cfg)] \<and>
      groups' st3 = groups' st1 \<and> numGroups' st3 = numGroups' st1 \<and>
      inputGroups' st3 = inputGroups' st1"
proof -
  let ?cur = "lastKey cfg (prevInput' st)"
  let ?ks = "batchKeys cfg inp"
  let ?M = "map (\<lambda>m. map_option (\<lambda>channel. map (\<lambda>r. rv_children inp ! channel ! r = Some 1)
                                          [0..<rv_size inp]) m) (maskChannels' cfg)"
  let ?m = "length (aggregates' cfg)"
  note h = pendingOk_steps[OF assms]
  from processInput_steps[OF h]
  obtain st1 rc4 rc5 where
    masks: "masksAddInput (maskChannels' cfg) inp (replicate (rv_size inp) True) = Inr ?M"
    and assign: "assignGroups cfg (st\<lparr>inputRows' := replicate (rv_size inp) True, maskedRows' := ?M\<rparr>) = Inr st1"
    and N: "numGroups' st1 = numGroups' st + length (opened ?cur ?ks)"
    and ig: "inputGroups' st1 = map (\<lambda>s. groups' st1 ! s) (slotsFrom ?cur (numGroups' st) ?ks)"
    and c1: "calls' st1 = calls' st"
    and inits: "foldE (initializeAggregateGroups cfg [numGroups' st..<numGroups' st1]) [0..<?m] st1 =
        Inr (st1\<lparr>rows' := rc4,
               calls' := calls' st @ map (\<lambda>i. InitializeNewGroups i (groups' st1) [numGroups' st..<numGroups' st1])
                                      [0..<?m]\<rparr>)"
    and updates: "evaluateAggregates cfg
        (st1\<lparr>rows' := rc4,
             calls' := calls' st @ map (\<lambda>i. InitializeNewGroups i (groups' st1) [numGroups' st..<numGroups' st1])
                                      [0..<?m]\<rparr>) =
        Inr (st1\<lparr>rows' := rc5,
               calls' := calls' st @
                 map (\<lambda>i. InitializeNewGroups i (groups' st1) [numGroups' st..<numGroups' st1]) [0..<?m] @
                 map (updateCall cfg inp (inputGroups' st1)) [0..<?m]\<rparr>)"
    and run: "processInput cfg inp st =
        Inr (st1\<lparr>rows' := rc5,
               calls' := calls' st @
                 map (\<lambda>i. InitializeNewGroups i (groups' st1) [numGroups' st..<numGroups' st1]) [0..<?m] @
                 map (updateCall cfg inp (inputGroups' st1)) [0..<?m]\<rparr>)"
    by (elim exE conjE)
  have curP: "?cur \<noteq> None \<longrightarrow> 0 < numGroups' st"
    using h(5) by (auto simp: lastKey_def split: option.splits)
  have bound: "\<forall>s\<in>set (slotsFrom ?cur (numGroups' st) ?ks). s < numGroups' st1"
    using slotsFrom_less[OF _ curP] N by simp
  have len: "length (inputGroups' st1) = rv_size inp"
    using ig by simp
  show ?thesis
    apply (rule exI[of _ ?M])
    apply (rule exI[of _ st1])
    apply (rule exI, rule exI)
    apply (intro conjI)
    apply (rule masks)
    apply (rule assign)
    apply (rule inits)
    apply (rule updates)
    apply (rule run)
    apply (rule c1)
    apply (rule N)
    apply (rule len)
    apply (rule ig)
    apply (rule bound)
    apply simp_all
    done
qed


theorem processInput_initializes_first_witness:
  "(\<exists>masked st1 st2 st3.
      masksAddInput (maskChannels' (sumConfig 8)) (batchOf [1, 1, 2] [10, 20, 30]) (replicate (rv_size (batchOf [1, 1, 2] [10, 20, 30])) True) = Inr masked \<and>
      assignGroups (sumConfig 8) ((addInput (batchOf [1, 1, 2] [10, 20, 30]) sumState)\<lparr>inputRows' := replicate (rv_size (batchOf [1, 1, 2] [10, 20, 30])) True, maskedRows' := masked\<rparr>) = Inr st1 \<and>
      foldE (initializeAggregateGroups (sumConfig 8) [numGroups' (addInput (batchOf [1, 1, 2] [10, 20, 30]) sumState)..<numGroups' st1])
        [0..<length (aggregates' (sumConfig 8))] st1 = Inr st2 \<and>
      evaluateAggregates (sumConfig 8) st2 = Inr st3 \<and>
      processInput (sumConfig 8) (batchOf [1, 1, 2] [10, 20, 30]) (addInput (batchOf [1, 1, 2] [10, 20, 30]) sumState) = Inr st3 \<and>
      calls' st1 = calls' (addInput (batchOf [1, 1, 2] [10, 20, 30]) sumState) \<and>
      numGroups' st1 = numGroups' (addInput (batchOf [1, 1, 2] [10, 20, 30]) sumState) + length (opened (lastKey (sumConfig 8) (prevInput' (addInput (batchOf [1, 1, 2] [10, 20, 30]) sumState))) (batchKeys (sumConfig 8) (batchOf [1, 1, 2] [10, 20, 30]))) \<and>
      length (inputGroups' st1) = rv_size (batchOf [1, 1, 2] [10, 20, 30]) \<and>
      inputGroups' st1 = map (\<lambda>s. groups' st1 ! s)
        (slotsFrom (lastKey (sumConfig 8) (prevInput' (addInput (batchOf [1, 1, 2] [10, 20, 30]) sumState))) (numGroups' (addInput (batchOf [1, 1, 2] [10, 20, 30]) sumState)) (batchKeys (sumConfig 8) (batchOf [1, 1, 2] [10, 20, 30]))) \<and>
      (\<forall>s\<in>set (slotsFrom (lastKey (sumConfig 8) (prevInput' (addInput (batchOf [1, 1, 2] [10, 20, 30]) sumState))) (numGroups' (addInput (batchOf [1, 1, 2] [10, 20, 30]) sumState)) (batchKeys (sumConfig 8) (batchOf [1, 1, 2] [10, 20, 30]))).
          s < numGroups' st1) \<and>
      calls' st2 = calls' (addInput (batchOf [1, 1, 2] [10, 20, 30]) sumState) @
        map (\<lambda>i. InitializeNewGroups i (groups' st1) [numGroups' (addInput (batchOf [1, 1, 2] [10, 20, 30]) sumState)..<numGroups' st1])
          [0..<length (aggregates' (sumConfig 8))] \<and>
      calls' st3 = calls' st2 @
        map (updateCall (sumConfig 8) (batchOf [1, 1, 2] [10, 20, 30]) (inputGroups' st1)) [0..<length (aggregates' (sumConfig 8))] \<and>
      groups' st3 = groups' st1 \<and> numGroups' st3 = numGroups' st1 \<and>
      inputGroups' st3 = inputGroups' st1) \<and>
   calls' (projr (processInput (sumConfig 8) (batchOf [1, 1, 2] [10, 20, 30]) (addInput (batchOf [1, 1, 2] [10, 20, 30]) sumState))) =
     [InitializeNewGroups 0 [Some 0, Some 1] [0, 1],
      AddRawInput 0 [Some 0, Some 0, Some 1] [True, True, True]
        [Some (FlatVector [Some 10, Some 20, Some 30])] False]"
proof (rule conjI)
  have ok: "pendingOk (sumConfig 8) (batchOf [1, 1, 2] [10, 20, 30]) (addInput (batchOf [1, 1, 2] [10, 20, 30]) sumState)"
    by (simp add: readyDefs evalDefs)
  show "\<exists>masked st1 st2 st3.
      masksAddInput (maskChannels' (sumConfig 8)) (batchOf [1, 1, 2] [10, 20, 30]) (replicate (rv_size (batchOf [1, 1, 2] [10, 20, 30])) True) = Inr masked \<and>
      assignGroups (sumConfig 8) ((addInput (batchOf [1, 1, 2] [10, 20, 30]) sumState)\<lparr>inputRows' := replicate (rv_size (batchOf [1, 1, 2] [10, 20, 30])) True, maskedRows' := masked\<rparr>) = Inr st1 \<and>
      foldE (initializeAggregateGroups (sumConfig 8) [numGroups' (addInput (batchOf [1, 1, 2] [10, 20, 30]) sumState)..<numGroups' st1])
        [0..<length (aggregates' (sumConfig 8))] st1 = Inr st2 \<and>
      evaluateAggregates (sumConfig 8) st2 = Inr st3 \<and>
      processInput (sumConfig 8) (batchOf [1, 1, 2] [10, 20, 30]) (addInput (batchOf [1, 1, 2] [10, 20, 30]) sumState) = Inr st3 \<and>
      calls' st1 = calls' (addInput (batchOf [1, 1, 2] [10, 20, 30]) sumState) \<and>
      numGroups' st1 = numGroups' (addInput (batchOf [1, 1, 2] [10, 20, 30]) sumState) + length (opened (lastKey (sumConfig 8) (prevInput' (addInput (batchOf [1, 1, 2] [10, 20, 30]) sumState))) (batchKeys (sumConfig 8) (batchOf [1, 1, 2] [10, 20, 30]))) \<and>
      length (inputGroups' st1) = rv_size (batchOf [1, 1, 2] [10, 20, 30]) \<and>
      inputGroups' st1 = map (\<lambda>s. groups' st1 ! s)
        (slotsFrom (lastKey (sumConfig 8) (prevInput' (addInput (batchOf [1, 1, 2] [10, 20, 30]) sumState))) (numGroups' (addInput (batchOf [1, 1, 2] [10, 20, 30]) sumState)) (batchKeys (sumConfig 8) (batchOf [1, 1, 2] [10, 20, 30]))) \<and>
      (\<forall>s\<in>set (slotsFrom (lastKey (sumConfig 8) (prevInput' (addInput (batchOf [1, 1, 2] [10, 20, 30]) sumState))) (numGroups' (addInput (batchOf [1, 1, 2] [10, 20, 30]) sumState)) (batchKeys (sumConfig 8) (batchOf [1, 1, 2] [10, 20, 30]))).
          s < numGroups' st1) \<and>
      calls' st2 = calls' (addInput (batchOf [1, 1, 2] [10, 20, 30]) sumState) @
        map (\<lambda>i. InitializeNewGroups i (groups' st1) [numGroups' (addInput (batchOf [1, 1, 2] [10, 20, 30]) sumState)..<numGroups' st1])
          [0..<length (aggregates' (sumConfig 8))] \<and>
      calls' st3 = calls' st2 @
        map (updateCall (sumConfig 8) (batchOf [1, 1, 2] [10, 20, 30]) (inputGroups' st1)) [0..<length (aggregates' (sumConfig 8))] \<and>
      groups' st3 = groups' st1 \<and> numGroups' st3 = numGroups' st1 \<and>
      inputGroups' st3 = inputGroups' st1"
    by (rule processInput_initializes_first[OF ok])
  show "calls' (projr (processInput (sumConfig 8) (batchOf [1, 1, 2] [10, 20, 30]) (addInput (batchOf [1, 1, 2] [10, 20, 30]) sumState))) =
     [InitializeNewGroups 0 [Some 0, Some 1] [0, 1],
      AddRawInput 0 [Some 0, Some 0, Some 1] [True, True, True]
        [Some (FlatVector [Some 10, Some 20, Some 30])] False]"
    by (simp add: evalDefs groupLoop.simps seamLoop.simps)
qed

section \<open>The selection of an update\<close>

lemma selectionOf_masked:
  assumes "batchOk cfg inp" and "i < length (maskChannels' cfg)"
  defines "M \<equiv> map (\<lambda>m. map_option (\<lambda>channel. map (\<lambda>r. rv_children inp ! channel ! r = Some 1)
                                          [0..<rv_size inp]) m) (maskChannels' cfg)"
  shows "selectionOf cfg inp i =
     (case M ! i of None \<Rightarrow> replicate (rv_size inp) True | Some rows \<Rightarrow> rows)"
    and "activeRows M i = Inr (M ! i)"
    and "inputRows' st = replicate (rv_size inp) True \<Longrightarrow> maskedRows' st = M \<Longrightarrow>
         getSelectivityVector st i = Inr (selectionOf cfg inp i)"
    and "(case maskChannels' cfg ! i of
            None \<Rightarrow> M ! i = None
          | Some channel \<Rightarrow>
              M ! i = Some (map (\<lambda>r. rv_children inp ! channel ! r = Some 1) [0..<rv_size inp]))"
proof -
  have len: "i < length M" using assms(2) by (simp add: M_def)
  show act: "activeRows M i = Inr (M ! i)"
    using len by (simp add: activeRows_def)
  show sel: "getSelectivityVector st i = Inr (selectionOf cfg inp i)"
    if "inputRows' st = replicate (rv_size inp) True" "maskedRows' st = M" for st :: "'b state"
    using getSelectivityVector_ok[OF assms(1,2) that(1)] that(2) by (simp add: M_def)
  let ?st = "\<lparr>input' = None, prevInput' = None, noMoreInput' = False,
      inputRows' = replicate (rv_size inp) True, maskedRows' = M, decodedKeys' = [],
      inputGroups' = [], numGroups' = 0, groups' = [],
      rows' = \<lparr>rc_numKeys = 0, rc_numAccs = 0, rc_rows = []\<rparr>, calls' = []\<rparr> :: unit state"
  have "getSelectivityVector ?st i = Inr (selectionOf cfg inp i)"
    using getSelectivityVector_ok[OF assms(1,2), of ?st] by (simp add: M_def)
  moreover have "getSelectivityVector ?st i =
      Inr (case M ! i of None \<Rightarrow> replicate (rv_size inp) True | Some rows \<Rightarrow> rows)"
    using act by (simp add: getSelectivityVector_def split: option.splits)
  ultimately show "selectionOf cfg inp i =
     (case M ! i of None \<Rightarrow> replicate (rv_size inp) True | Some rows \<Rightarrow> rows)"
    by simp
  show "(case maskChannels' cfg ! i of
            None \<Rightarrow> M ! i = None
          | Some channel \<Rightarrow>
              M ! i = Some (map (\<lambda>r. rv_children inp ! channel ! r = Some 1) [0..<rv_size inp]))"
    using assms(2) by (simp add: M_def split: option.splits)
qed


text \<open>
  C8. When \<^verbatim>\<open>getOutput()\<close> processes a pending batch, the selection that the update
  call of aggregate \<open>i\<close> receives is what \<^verbatim>\<open>getSelectivityVector(i)\<close> returns: the rows
  that \<^verbatim>\<open>activeRows(i)\<close> of the masks gives when it gives some, which is the case
  exactly when the aggregate has a mask column, and otherwise \<^verbatim>\<open>inputRows_\<close>, the
  selection of all rows of the batch.
\<close>

theorem update_selection:
  assumes "pendingOk cfg inp st"
  shows "\<exists>masked st1.
      masksAddInput (maskChannels' cfg) inp (replicate (rv_size inp) True) = Inr masked \<and>
      processInput cfg inp st = Inr st1 \<and>
      inputRows' st1 = replicate (rv_size inp) True \<and> maskedRows' st1 = masked \<and>
      calls' st1 = calls' st @
        map (\<lambda>i. InitializeNewGroups i (groups' st1) [numGroups' st..<numGroups' st1])
          [0..<length (aggregates' cfg)] @
        map (\<lambda>i. (if isRawInput (step' cfg) then AddRawInput else AddIntermediateResults)
                   i (inputGroups' st1)
                   (case masked ! i of None \<Rightarrow> replicate (rv_size inp) True | Some rows \<Rightarrow> rows)
                   (argVectors cfg inp i) False)
          [0..<length (aggregates' cfg)] \<and>
      (\<forall>i<length (aggregates' cfg).
          activeRows masked i = Inr (masked ! i) \<and>
          getSelectivityVector st1 i =
            Inr (case masked ! i of None \<Rightarrow> replicate (rv_size inp) True | Some rows \<Rightarrow> rows) \<and>
          (case maskChannels' cfg ! i of
             None \<Rightarrow> masked ! i = None
           | Some channel \<Rightarrow>
               masked ! i = Some (map (\<lambda>r. rv_children inp ! channel ! r = Some 1) [0..<rv_size inp])))"
proof -
  let ?M = "map (\<lambda>m. map_option (\<lambda>channel. map (\<lambda>r. rv_children inp ! channel ! r = Some 1)
                                          [0..<rv_size inp]) m) (maskChannels' cfg)"
  let ?m = "length (aggregates' cfg)"
  let ?sel = "\<lambda>i. case ?M ! i of None \<Rightarrow> replicate (rv_size inp) True | Some rows \<Rightarrow> rows"
  note h = pendingOk_steps[OF assms]
  have lm: "length (maskChannels' cfg) = ?m"
    using h(1) by (simp add: configOk_def)
  from processInput_steps[OF h]
  obtain st3 rc5 where
    masks: "masksAddInput (maskChannels' cfg) inp (replicate (rv_size inp) True) = Inr ?M"
    and ir: "inputRows' st3 = replicate (rv_size inp) True" and mr: "maskedRows' st3 = ?M"
    and run: "processInput cfg inp st =
        Inr (st3\<lparr>rows' := rc5,
               calls' := calls' st @
                 map (\<lambda>i. InitializeNewGroups i (groups' st3) [numGroups' st..<numGroups' st3]) [0..<?m] @
                 map (updateCall cfg inp (inputGroups' st3)) [0..<?m]\<rparr>)"
    by (elim exE conjE)
  let ?st1 = "st3\<lparr>rows' := rc5,
               calls' := calls' st @
                 map (\<lambda>i. InitializeNewGroups i (groups' st3) [numGroups' st..<numGroups' st3]) [0..<?m] @
                 map (updateCall cfg inp (inputGroups' st3)) [0..<?m]\<rparr>"
  have upd: "map (updateCall cfg inp (inputGroups' st3)) [0..<?m] =
      map (\<lambda>i. (if isRawInput (step' cfg) then AddRawInput else AddIntermediateResults)
                   i (inputGroups' st3) (?sel i) (argVectors cfg inp i) False) [0..<?m]"
  proof (rule map_cong[OF refl])
    fix i assume "i \<in> set [0..<?m]"
    then have i: "i < length (maskChannels' cfg)" using lm by simp
    show "updateCall cfg inp (inputGroups' st3) i =
        (if isRawInput (step' cfg) then AddRawInput else AddIntermediateResults)
                   i (inputGroups' st3) (?sel i) (argVectors cfg inp i) False"
      using selectionOf_masked(1)[OF h(2) i] by (simp add: updateCall_def)
  qed
  have each: "activeRows ?M i = Inr (?M ! i) \<and>
          getSelectivityVector ?st1 i = Inr (?sel i) \<and>
          (case maskChannels' cfg ! i of
             None \<Rightarrow> ?M ! i = None
           | Some channel \<Rightarrow>
               ?M ! i = Some (map (\<lambda>r. rv_children inp ! channel ! r = Some 1) [0..<rv_size inp]))"
    if "i < ?m" for i
  proof -
    have i: "i < length (maskChannels' cfg)" using that lm by simp
    have a: "inputRows' ?st1 = replicate (rv_size inp) True" using ir by simp
    have b: "maskedRows' ?st1 = ?M" using mr by simp
    show ?thesis
      using selectionOf_masked(2)[OF h(2) i] selectionOf_masked(3)[OF h(2) i a b]
        selectionOf_masked(4)[OF h(2) i] selectionOf_masked(1)[OF h(2) i]
      by simp
  qed
  show ?thesis
    apply (rule exI[of _ ?M])
    apply (rule exI[of _ ?st1])
    apply (intro conjI)
    subgoal by (rule masks)
    subgoal by (rule run)
    subgoal using ir by simp
    subgoal using mr by simp
    subgoal using upd by simp
    subgoal using each by blast
    done
qed


theorem update_selection_witness:
  "(\<exists>masked st1.
      masksAddInput (maskChannels' maskedConfig) maskedBatch (replicate (rv_size maskedBatch) True) = Inr masked \<and>
      processInput maskedConfig maskedBatch (addInput maskedBatch sumState) = Inr st1 \<and>
      inputRows' st1 = replicate (rv_size maskedBatch) True \<and> maskedRows' st1 = masked \<and>
      calls' st1 = calls' (addInput maskedBatch sumState) @
        map (\<lambda>i. InitializeNewGroups i (groups' st1) [numGroups' (addInput maskedBatch sumState)..<numGroups' st1])
          [0..<length (aggregates' maskedConfig)] @
        map (\<lambda>i. (if isRawInput (step' maskedConfig) then AddRawInput else AddIntermediateResults)
                   i (inputGroups' st1)
                   (case masked ! i of None \<Rightarrow> replicate (rv_size maskedBatch) True | Some rows \<Rightarrow> rows)
                   (argVectors maskedConfig maskedBatch i) False)
          [0..<length (aggregates' maskedConfig)] \<and>
      (\<forall>i<length (aggregates' maskedConfig).
          activeRows masked i = Inr (masked ! i) \<and>
          getSelectivityVector st1 i =
            Inr (case masked ! i of None \<Rightarrow> replicate (rv_size maskedBatch) True | Some rows \<Rightarrow> rows) \<and>
          (case maskChannels' maskedConfig ! i of
             None \<Rightarrow> masked ! i = None
           | Some channel \<Rightarrow>
               masked ! i = Some (map (\<lambda>r. rv_children maskedBatch ! channel ! r = Some 1) [0..<rv_size maskedBatch])))) \<and>
   calls' (projr (processInput maskedConfig maskedBatch (addInput maskedBatch sumState))) =
     [InitializeNewGroups 0 [Some 0, Some 1] [0, 1],
      AddRawInput 0 [Some 0, Some 0, Some 1] [True, False, True]
        [Some (FlatVector [Some 10, Some 20, Some 30])] False] \<and>
   calls' (projr (processInput (sumConfig 8) (batchOf [1, 1, 2] [10, 20, 30]) (addInput (batchOf [1, 1, 2] [10, 20, 30]) sumState))) =
     [InitializeNewGroups 0 [Some 0, Some 1] [0, 1],
      AddRawInput 0 [Some 0, Some 0, Some 1] [True, True, True]
        [Some (FlatVector [Some 10, Some 20, Some 30])] False]"
proof (intro conjI)
  have ok: "pendingOk maskedConfig maskedBatch (addInput maskedBatch sumState)"
    by (simp add: readyDefs evalDefs)
  show "\<exists>masked st1.
      masksAddInput (maskChannels' maskedConfig) maskedBatch (replicate (rv_size maskedBatch) True) = Inr masked \<and>
      processInput maskedConfig maskedBatch (addInput maskedBatch sumState) = Inr st1 \<and>
      inputRows' st1 = replicate (rv_size maskedBatch) True \<and> maskedRows' st1 = masked \<and>
      calls' st1 = calls' (addInput maskedBatch sumState) @
        map (\<lambda>i. InitializeNewGroups i (groups' st1) [numGroups' (addInput maskedBatch sumState)..<numGroups' st1])
          [0..<length (aggregates' maskedConfig)] @
        map (\<lambda>i. (if isRawInput (step' maskedConfig) then AddRawInput else AddIntermediateResults)
                   i (inputGroups' st1)
                   (case masked ! i of None \<Rightarrow> replicate (rv_size maskedBatch) True | Some rows \<Rightarrow> rows)
                   (argVectors maskedConfig maskedBatch i) False)
          [0..<length (aggregates' maskedConfig)] \<and>
      (\<forall>i<length (aggregates' maskedConfig).
          activeRows masked i = Inr (masked ! i) \<and>
          getSelectivityVector st1 i =
            Inr (case masked ! i of None \<Rightarrow> replicate (rv_size maskedBatch) True | Some rows \<Rightarrow> rows) \<and>
          (case maskChannels' maskedConfig ! i of
             None \<Rightarrow> masked ! i = None
           | Some channel \<Rightarrow>
               masked ! i = Some (map (\<lambda>r. rv_children maskedBatch ! channel ! r = Some 1) [0..<rv_size maskedBatch])))"
    by (rule update_selection[OF ok])
  show "calls' (projr (processInput maskedConfig maskedBatch (addInput maskedBatch sumState))) =
     [InitializeNewGroups 0 [Some 0, Some 1] [0, 1],
      AddRawInput 0 [Some 0, Some 0, Some 1] [True, False, True]
        [Some (FlatVector [Some 10, Some 20, Some 30])] False]"
    by (simp add: readyDefs evalDefs groupLoop.simps seamLoop.simps numeral_3_eq_3 numeral_2_eq_2)
  show "calls' (projr (processInput (sumConfig 8) (batchOf [1, 1, 2] [10, 20, 30]) (addInput (batchOf [1, 1, 2] [10, 20, 30]) sumState))) =
     [InitializeNewGroups 0 [Some 0, Some 1] [0, 1],
      AddRawInput 0 [Some 0, Some 0, Some 1] [True, True, True]
        [Some (FlatVector [Some 10, Some 20, Some 30])] False]"
    by (simp add: evalDefs groupLoop.simps seamLoop.simps)
qed

section \<open>The step and the paths through the kernels\<close>

text \<open>
  C7. The step decides both paths. When \<^verbatim>\<open>getOutput()\<close> processes a pending batch,
  the update call of every aggregate is \<^verbatim>\<open>addRawInput\<close> for a raw-input step and
  \<^verbatim>\<open>addIntermediateResults\<close> otherwise, its last argument is \<^verbatim>\<open>false\<close>, and the
  accumulators of the open groups change by the kernel's raw update or by its
  intermediate update accordingly. When \<^verbatim>\<open>createOutput(n)\<close> builds a batch, every
  aggregate column is what \<^verbatim>\<open>extractAccumulators\<close> gives for a partial-output step
  and what \<^verbatim>\<open>extractValues\<close> gives otherwise, and that is the call made.
\<close>

theorem step_dispatch:
  "(pendingOk cfg inp st \<longrightarrow>
      (\<exists>st1 sel. processInput cfg inp st = Inr st1 \<and>
         calls' st1 = calls' st @
           map (\<lambda>i. InitializeNewGroups i (groups' st1) [numGroups' st..<numGroups' st1])
             [0..<length (aggregates' cfg)] @
           map (\<lambda>i. if isRawInput (step' cfg)
                     then AddRawInput i (inputGroups' st1) (sel i) (argVectors cfg inp i) False
                     else AddIntermediateResults i (inputGroups' st1) (sel i) (argVectors cfg inp i) False)
             [0..<length (aggregates' cfg)] \<and>
         (\<forall>i<length (aggregates' cfg).
            liveAccs i st1 =
              foldl (\<lambda>A (s, row). A[s := map_option
                        (\<lambda>a. if selectedFor cfg i row
                              then (if isRawInput (step' cfg) then rawUpdate (aggregates' cfg ! i)
                                    else intermediateUpdate (aggregates' cfg ! i)) a (argValues cfg i row)
                              else a) (A ! s)])
                (liveAccs i st @
                   replicate (numGroups' st1 - numGroups' st) (Some (initialValue (aggregates' cfg ! i))))
                (zip (slotsFrom (lastKey cfg (prevInput' st)) (numGroups' st) (batchKeys cfg inp))
                   (batchRows inp))))) \<and>
   (slotsOk cfg st \<and> n \<le> length (groups' st) \<and> list_all initializedRow (map (slotRow st) [0..<n]) \<longrightarrow>
      (\<exists>out st1. createOutput cfg n st = Inr (out, st1) \<and>
         calls' st1 = calls' st @
           map (\<lambda>i. if isPartialOutput (step' cfg) then ExtractAccumulators i (groups' st) n
                     else ExtractValues i (groups' st) n)
             [0..<length (aggregates' cfg)] \<and>
         (\<forall>i<length (aggregates' cfg).
            (if isPartialOutput (step' cfg)
             then extractAccumulators (aggregates' cfg ! i) i (groups' st) n (rows' st)
             else extractValues (aggregates' cfg ! i) i (groups' st) n (rows' st)) =
            Inr (rv_children out ! (length (groupingKeys' cfg) + i)))))"
proof (intro conjI impI)
  assume p: "pendingOk cfg inp st"
  let ?cur = "lastKey cfg (prevInput' st)"
  let ?ks = "batchKeys cfg inp"
  let ?m = "length (aggregates' cfg)"
  note h = pendingOk_steps[OF p]
  from processInput_steps[OF h]
  obtain st3 rc5 where
    N: "numGroups' st3 = numGroups' st + length (opened ?cur ?ks)"
    and run: "processInput cfg inp st =
        Inr (st3\<lparr>rows' := rc5,
               calls' := calls' st @
                 map (\<lambda>i. InitializeNewGroups i (groups' st3) [numGroups' st..<numGroups' st3]) [0..<?m] @
                 map (updateCall cfg inp (inputGroups' st3)) [0..<?m]\<rparr>)"
    and accs: "\<forall>i<?m. take (numGroups' st3) (accsT i (groups' st3) rc5) =
           absorbInto cfg i
             (liveAccs i st @ replicate (length (opened ?cur ?ks)) (Some (initialValue (aggregates' cfg ! i))))
             (zip (slotsFrom ?cur (numGroups' st) ?ks) (batchRows inp))"
    by (elim exE conjE)
  let ?st1 = "st3\<lparr>rows' := rc5,
               calls' := calls' st @
                 map (\<lambda>i. InitializeNewGroups i (groups' st3) [numGroups' st..<numGroups' st3]) [0..<?m] @
                 map (updateCall cfg inp (inputGroups' st3)) [0..<?m]\<rparr>"
  have upd: "map (updateCall cfg inp (inputGroups' st3)) [0..<?m] =
      map (\<lambda>i. if isRawInput (step' cfg)
                then AddRawInput i (inputGroups' st3) (selectionOf cfg inp i) (argVectors cfg inp i) False
                else AddIntermediateResults i (inputGroups' st3) (selectionOf cfg inp i)
                       (argVectors cfg inp i) False) [0..<?m]"
    by (simp add: updateCall_def)
  have live: "liveAccs i ?st1 =
              foldl (\<lambda>A (s, row). A[s := map_option
                        (\<lambda>a. if selectedFor cfg i row
                              then (if isRawInput (step' cfg) then rawUpdate (aggregates' cfg ! i)
                                    else intermediateUpdate (aggregates' cfg ! i)) a (argValues cfg i row)
                              else a) (A ! s)])
                (liveAccs i st @
                   replicate (numGroups' ?st1 - numGroups' st) (Some (initialValue (aggregates' cfg ! i))))
                (zip (slotsFrom ?cur (numGroups' st) ?ks) (batchRows inp))" if "i < ?m" for i
  proof -
    have eq: "absorbInto cfg i A sr =
        foldl (\<lambda>A (s, row). A[s := map_option
                        (\<lambda>a. if selectedFor cfg i row
                              then (if isRawInput (step' cfg) then rawUpdate (aggregates' cfg ! i)
                                    else intermediateUpdate (aggregates' cfg ! i)) a (argValues cfg i row)
                              else a) (A ! s)]) A sr" for A sr
      unfolding absorbInto_def stepAcc_def updateOf_def ..
    have "liveAccs i ?st1 = absorbInto cfg i
             (liveAccs i st @ replicate (length (opened ?cur ?ks)) (Some (initialValue (aggregates' cfg ! i))))
             (zip (slotsFrom ?cur (numGroups' st) ?ks) (batchRows inp))"
      using accs that by (simp add: liveAccs_def)
    also have "length (opened ?cur ?ks) = numGroups' ?st1 - numGroups' st"
      using N by simp
    finally show ?thesis
      unfolding eq .
  qed
  show "\<exists>st1 sel. processInput cfg inp st = Inr st1 \<and>
         calls' st1 = calls' st @
           map (\<lambda>i. InitializeNewGroups i (groups' st1) [numGroups' st..<numGroups' st1]) [0..<?m] @
           map (\<lambda>i. if isRawInput (step' cfg)
                     then AddRawInput i (inputGroups' st1) (sel i) (argVectors cfg inp i) False
                     else AddIntermediateResults i (inputGroups' st1) (sel i) (argVectors cfg inp i) False)
             [0..<?m] \<and>
         (\<forall>i<?m.
            liveAccs i st1 =
              foldl (\<lambda>A (s, row). A[s := map_option
                        (\<lambda>a. if selectedFor cfg i row
                              then (if isRawInput (step' cfg) then rawUpdate (aggregates' cfg ! i)
                                    else intermediateUpdate (aggregates' cfg ! i)) a (argValues cfg i row)
                              else a) (A ! s)])
                (liveAccs i st @
                   replicate (numGroups' st1 - numGroups' st) (Some (initialValue (aggregates' cfg ! i))))
                (zip (slotsFrom ?cur (numGroups' st) ?ks) (batchRows inp)))"
    apply (rule exI[of _ ?st1])
    apply (rule exI[of _ "selectionOf cfg inp"])
    apply (intro conjI)
    subgoal by (rule run)
    subgoal using upd by simp
    subgoal using live by blast
    done
next
  assume a: "slotsOk cfg st \<and> n \<le> length (groups' st) \<and>
      list_all initializedRow (map (slotRow st) [0..<n])"
  let ?m = "length (aggregates' cfg)"
  have ok: "slotsOk cfg st" and n: "n \<le> length (groups' st)"
    and init: "\<forall>j<n. initializedRow (slotRow st j)"
    using a by (simp_all add: list_all_length)
  let ?st1 = "st\<lparr>calls' := calls' st @ map (extractCall cfg (groups' st) n) [0..<?m]\<rparr>"
  have run: "createOutput cfg n st = Inr (outputOf cfg st n, ?st1)"
    by (rule createOutput_ok[OF ok n init])
  have calls: "map (extractCall cfg (groups' st) n) [0..<?m] =
      map (\<lambda>i. if isPartialOutput (step' cfg) then ExtractAccumulators i (groups' st) n
                else ExtractValues i (groups' st) n) [0..<?m]"
    by (simp add: extractCall_def)
  have col: "(if isPartialOutput (step' cfg)
             then extractAccumulators (aggregates' cfg ! i) i (groups' st) n (rows' st)
             else extractValues (aggregates' cfg ! i) i (groups' st) n (rows' st)) =
            Inr (rv_children (outputOf cfg st n) ! (length (groupingKeys' cfg) + i))" if i: "i < ?m" for i
    using i extractWith_ok[OF ok n i init]
    by (simp add: extractAccumulators_def extractValues_def outputOf_def nth_append extractOf_def)
  show "\<exists>out st1. createOutput cfg n st = Inr (out, st1) \<and>
         calls' st1 = calls' st @
           map (\<lambda>i. if isPartialOutput (step' cfg) then ExtractAccumulators i (groups' st) n
                     else ExtractValues i (groups' st) n) [0..<?m] \<and>
         (\<forall>i<?m.
            (if isPartialOutput (step' cfg)
             then extractAccumulators (aggregates' cfg ! i) i (groups' st) n (rows' st)
             else extractValues (aggregates' cfg ! i) i (groups' st) n (rows' st)) =
            Inr (rv_children out ! (length (groupingKeys' cfg) + i)))"
    apply (rule exI[of _ "outputOf cfg st n"])
    apply (rule exI[of _ ?st1])
    apply (intro conjI)
    subgoal by (rule run)
    subgoal using calls by simp
    subgoal using col by blast
    done
qed


theorem step_dispatch_witness:
  "(\<exists>st1 sel. processInput (sumConfig 8) (batchOf [1, 1, 2] [10, 20, 30]) (addInput (batchOf [1, 1, 2] [10, 20, 30]) sumState) = Inr st1 \<and>
         calls' st1 = calls' (addInput (batchOf [1, 1, 2] [10, 20, 30]) sumState) @
           map (\<lambda>i. InitializeNewGroups i (groups' st1) [numGroups' (addInput (batchOf [1, 1, 2] [10, 20, 30]) sumState)..<numGroups' st1])
             [0..<length (aggregates' (sumConfig 8))] @
           map (\<lambda>i. if isRawInput (step' (sumConfig 8))
                     then AddRawInput i (inputGroups' st1) (sel i) (argVectors (sumConfig 8) (batchOf [1, 1, 2] [10, 20, 30]) i) False
                     else AddIntermediateResults i (inputGroups' st1) (sel i) (argVectors (sumConfig 8) (batchOf [1, 1, 2] [10, 20, 30]) i) False)
             [0..<length (aggregates' (sumConfig 8))] \<and>
         (\<forall>i<length (aggregates' (sumConfig 8)).
            liveAccs i st1 =
              foldl (\<lambda>A (s, row). A[s := map_option
                        (\<lambda>a. if selectedFor (sumConfig 8) i row
                              then (if isRawInput (step' (sumConfig 8)) then rawUpdate (aggregates' (sumConfig 8) ! i)
                                    else intermediateUpdate (aggregates' (sumConfig 8) ! i)) a (argValues (sumConfig 8) i row)
                              else a) (A ! s)])
                (liveAccs i (addInput (batchOf [1, 1, 2] [10, 20, 30]) sumState) @
                   replicate (numGroups' st1 - numGroups' (addInput (batchOf [1, 1, 2] [10, 20, 30]) sumState)) (Some (initialValue (aggregates' (sumConfig 8) ! i))))
                (zip (slotsFrom (lastKey (sumConfig 8) (prevInput' (addInput (batchOf [1, 1, 2] [10, 20, 30]) sumState))) (numGroups' (addInput (batchOf [1, 1, 2] [10, 20, 30]) sumState)) (batchKeys (sumConfig 8) (batchOf [1, 1, 2] [10, 20, 30])))
                   (batchRows (batchOf [1, 1, 2] [10, 20, 30]))))) \<and>
   (\<exists>out st1. createOutput (sumConfig 8) 2 twoGroups = Inr (out, st1) \<and>
         calls' st1 = calls' twoGroups @
           map (\<lambda>i. if isPartialOutput (step' (sumConfig 8)) then ExtractAccumulators i (groups' twoGroups) 2
                     else ExtractValues i (groups' twoGroups) 2)
             [0..<length (aggregates' (sumConfig 8))] \<and>
         (\<forall>i<length (aggregates' (sumConfig 8)).
            (if isPartialOutput (step' (sumConfig 8))
             then extractAccumulators (aggregates' (sumConfig 8) ! i) i (groups' twoGroups) 2 (rows' twoGroups)
             else extractValues (aggregates' (sumConfig 8) ! i) i (groups' twoGroups) 2 (rows' twoGroups)) =
            Inr (rv_children out ! (length (groupingKeys' (sumConfig 8)) + i)))) \<and>
   calls' (projr (processInput (sumConfig 8) (batchOf [1, 1, 2] [10, 20, 30]) (addInput (batchOf [1, 1, 2] [10, 20, 30]) sumState))) =
     [InitializeNewGroups 0 [Some 0, Some 1] [0, 1],
      AddRawInput 0 [Some 0, Some 0, Some 1] [True, True, True]
        [Some (FlatVector [Some 10, Some 20, Some 30])] False] \<and>
   calls' (snd (projr (createOutput (sumConfig 8) 2 twoGroups))) = [ExtractValues 0 [Some 1, Some 0] 2] \<and>
   calls' (projr (processInput ((sumConfig 8)\<lparr>step' := kIntermediate\<rparr>) (batchOf [1, 1, 2] [10, 20, 30]) (addInput (batchOf [1, 1, 2] [10, 20, 30]) sumState))) =
     [InitializeNewGroups 0 [Some 0, Some 1] [0, 1],
      AddIntermediateResults 0 [Some 0, Some 0, Some 1] [True, True, True]
        [Some (FlatVector [Some 10, Some 20, Some 30])] False] \<and>
   calls' (snd (projr (createOutput ((sumConfig 8)\<lparr>step' := kIntermediate\<rparr>) 2 twoGroups))) = [ExtractAccumulators 0 [Some 1, Some 0] 2]"
proof (intro conjI)
  have ok: "pendingOk (sumConfig 8) (batchOf [1, 1, 2] [10, 20, 30]) (addInput (batchOf [1, 1, 2] [10, 20, 30]) sumState)"
    by (simp add: readyDefs evalDefs)
  have two: "slotsOk (sumConfig 8) twoGroups \<and> 2 \<le> length (groups' twoGroups) \<and>
      list_all initializedRow (map (slotRow twoGroups) [0..<2])"
    by (simp add: readyDefs evalDefs reuseState_def twoGroups_def)
  show "(\<exists>st1 sel. processInput (sumConfig 8) (batchOf [1, 1, 2] [10, 20, 30]) (addInput (batchOf [1, 1, 2] [10, 20, 30]) sumState) = Inr st1 \<and>
         calls' st1 = calls' (addInput (batchOf [1, 1, 2] [10, 20, 30]) sumState) @
           map (\<lambda>i. InitializeNewGroups i (groups' st1) [numGroups' (addInput (batchOf [1, 1, 2] [10, 20, 30]) sumState)..<numGroups' st1])
             [0..<length (aggregates' (sumConfig 8))] @
           map (\<lambda>i. if isRawInput (step' (sumConfig 8))
                     then AddRawInput i (inputGroups' st1) (sel i) (argVectors (sumConfig 8) (batchOf [1, 1, 2] [10, 20, 30]) i) False
                     else AddIntermediateResults i (inputGroups' st1) (sel i) (argVectors (sumConfig 8) (batchOf [1, 1, 2] [10, 20, 30]) i) False)
             [0..<length (aggregates' (sumConfig 8))] \<and>
         (\<forall>i<length (aggregates' (sumConfig 8)).
            liveAccs i st1 =
              foldl (\<lambda>A (s, row). A[s := map_option
                        (\<lambda>a. if selectedFor (sumConfig 8) i row
                              then (if isRawInput (step' (sumConfig 8)) then rawUpdate (aggregates' (sumConfig 8) ! i)
                                    else intermediateUpdate (aggregates' (sumConfig 8) ! i)) a (argValues (sumConfig 8) i row)
                              else a) (A ! s)])
                (liveAccs i (addInput (batchOf [1, 1, 2] [10, 20, 30]) sumState) @
                   replicate (numGroups' st1 - numGroups' (addInput (batchOf [1, 1, 2] [10, 20, 30]) sumState)) (Some (initialValue (aggregates' (sumConfig 8) ! i))))
                (zip (slotsFrom (lastKey (sumConfig 8) (prevInput' (addInput (batchOf [1, 1, 2] [10, 20, 30]) sumState))) (numGroups' (addInput (batchOf [1, 1, 2] [10, 20, 30]) sumState)) (batchKeys (sumConfig 8) (batchOf [1, 1, 2] [10, 20, 30])))
                   (batchRows (batchOf [1, 1, 2] [10, 20, 30])))))"
    by (rule mp[OF conjunct1[OF step_dispatch] ok])
  show "(\<exists>out st1. createOutput (sumConfig 8) 2 twoGroups = Inr (out, st1) \<and>
         calls' st1 = calls' twoGroups @
           map (\<lambda>i. if isPartialOutput (step' (sumConfig 8)) then ExtractAccumulators i (groups' twoGroups) 2
                     else ExtractValues i (groups' twoGroups) 2)
             [0..<length (aggregates' (sumConfig 8))] \<and>
         (\<forall>i<length (aggregates' (sumConfig 8)).
            (if isPartialOutput (step' (sumConfig 8))
             then extractAccumulators (aggregates' (sumConfig 8) ! i) i (groups' twoGroups) 2 (rows' twoGroups)
             else extractValues (aggregates' (sumConfig 8) ! i) i (groups' twoGroups) 2 (rows' twoGroups)) =
            Inr (rv_children out ! (length (groupingKeys' (sumConfig 8)) + i))))"
    by (rule mp[OF conjunct2[OF step_dispatch] two])
qed (simp_all add: evalDefs groupLoop.simps seamLoop.simps reuseState_def twoGroups_def)

end
